theory Spec2Isabelle
  imports Main "HOL-Library.Char_ord" "HOL-Library.List_Lexorder"
begin

section \<open>Go values used by the server\<close>

text \<open>
  A \<^verbatim>\<open>time.Time\<close> obtained from \<^verbatim>\<open>time.Now()\<close> is modelled by its clock reading in
  nanoseconds. The reading is an input of every handler that calls \<^verbatim>\<open>time.Now()\<close>.

  Go strings are byte strings; \<^typ>\<open>string\<close> is used for them, and comparison of strings is
  the bytewise lexicographic order.

  The identifier counter \<^verbatim>\<open>nextID\<close> and the identifiers are Go \<^verbatim>\<open>int\<close>s that are only
  ever compared and incremented by one per created user, starting from 1; they are counted
  in \<^typ>\<open>int\<close>. The page arithmetic of \<^verbatim>\<open>getUsers\<close> works on numbers taken from the
  request, and is modelled with the 64-bit wrap-around of Go's \<^verbatim>\<open>int\<close> written out.
\<close>

type_synonym time = int

definition wrap64 :: "int \<Rightarrow> int" where
  "wrap64 x = (x + 2 ^ 63) mod 2 ^ 64 - 2 ^ 63"

text \<open>Go's integer division truncates towards zero.\<close>

definition quot :: "int \<Rightarrow> int \<Rightarrow> int" where
  "quot a b = sgn a * sgn b * (\<bar>a\<bar> div \<bar>b\<bar>)"

text \<open>\<^verbatim>\<open>strings.Contains(s, sub)\<close>: \<^verbatim>\<open>sub\<close> occurs in \<^verbatim>\<open>s\<close> as a contiguous block.\<close>

fun has_prefix :: "string \<Rightarrow> string \<Rightarrow> bool" where
  "has_prefix s [] = True"
| "has_prefix [] (c # sub) = False"
| "has_prefix (d # s) (c # sub) = (d = c \<and> has_prefix s sub)"

fun Contains :: "string \<Rightarrow> string \<Rightarrow> bool" where
  "Contains [] sub = (sub = [])"
| "Contains (c # s) sub = (has_prefix (c # s) sub \<or> Contains s sub)"

text \<open>
  \<^verbatim>\<open>strconv.ParseBool\<close> accepts exactly the twelve spellings below; on any other string it
  returns \<^verbatim>\<open>false\<close> together with an error.
\<close>

definition ParseBool :: "string \<Rightarrow> bool option" where
  "ParseBool str =
     (if str \<in> set [''1'', ''t'', ''T'', ''TRUE'', ''true'', ''True''] then Some True
      else if str \<in> set [''0'', ''f'', ''F'', ''FALSE'', ''false'', ''False''] then Some False
      else None)"

subsection \<open>Regular expressions\<close>

text \<open>
  The handlers validate an address with
  \<^verbatim>\<open>regexp.MustCompile(`^[a-z0-9._%+\-]+@[a-z0-9.\-]+\.[a-z]{2,}$`)\<close>. The pattern is anchored
  at both ends, so \<^verbatim>\<open>MatchString\<close> asks whether the whole string belongs to the language of
  the expression between the anchors. Membership is decided by derivatives.
\<close>

datatype rexp =
    Nothing
  | Empty
  | Class "char list"
  | Cat rexp rexp
  | Alt rexp rexp
  | Star rexp

fun nullable :: "rexp \<Rightarrow> bool" where
  "nullable Nothing = False"
| "nullable Empty = True"
| "nullable (Class cs) = False"
| "nullable (Cat r s) = (nullable r \<and> nullable s)"
| "nullable (Alt r s) = (nullable r \<or> nullable s)"
| "nullable (Star r) = True"

fun cat :: "rexp \<Rightarrow> rexp \<Rightarrow> rexp" where
  "cat Nothing s = Nothing"
| "cat Empty s = s"
| "cat r s = Cat r s"

fun alt :: "rexp \<Rightarrow> rexp \<Rightarrow> rexp" where
  "alt Nothing s = s"
| "alt r Nothing = r"
| "alt r s = Alt r s"

fun deriv :: "char \<Rightarrow> rexp \<Rightarrow> rexp" where
  "deriv c Nothing = Nothing"
| "deriv c Empty = Nothing"
| "deriv c (Class cs) = (if c \<in> set cs then Empty else Nothing)"
| "deriv c (Cat r s) =
     (if nullable r then alt (cat (deriv c r) s) (deriv c s) else cat (deriv c r) s)"
| "deriv c (Alt r s) = alt (deriv c r) (deriv c s)"
| "deriv c (Star r) = cat (deriv c r) (Star r)"

fun MatchString :: "rexp \<Rightarrow> string \<Rightarrow> bool" where
  "MatchString r [] = nullable r"
| "MatchString r (c # s) = MatchString (deriv c r) s"

definition many1 :: "rexp \<Rightarrow> rexp" where
  "many1 r = Cat r (Star r)"

definition many2 :: "rexp \<Rightarrow> rexp" where
  "many2 r = Cat r (Cat r (Star r))"

definition lower_digit :: "char list" where
  "lower_digit = ''abcdefghijklmnopqrstuvwxyz0123456789''"

definition emailRegex :: rexp where
  "emailRegex =
     Cat (many1 (Class (lower_digit @ ''._%+-'')))
       (Cat (Class ''@'')
         (Cat (many1 (Class (lower_digit @ ''.-'')))
           (Cat (Class ''.'') (many2 (Class ''abcdefghijklmnopqrstuvwxyz'')))))"

text \<open>
  \<^verbatim>\<open>strings.ToLower\<close> maps every Unicode letter to its lower case with the tables of Go's
  \<^verbatim>\<open>unicode\<close> package. The handlers take it as the parameter \<open>ToLower\<close>; the function
  below is its restriction to ASCII, used to run the handlers on ASCII input.
\<close>

definition ascii_lower_char :: "char \<Rightarrow> char" where
  "ascii_lower_char c =
     (case map_of (zip ''ABCDEFGHIJKLMNOPQRSTUVWXYZ'' ''abcdefghijklmnopqrstuvwxyz'') c of
        Some d \<Rightarrow> d
      | None \<Rightarrow> c)"

definition ascii_lower :: "string \<Rightarrow> string" where
  "ascii_lower s = map ascii_lower_char s"

section \<open>The user store (server/server.go)\<close>

text \<open>
  A call either returns, or panics, or waits on a channel for ever.
\<close>

datatype 'a outcome = Returns 'a | Blocks | Panics

record User =
  ID :: int
  Name :: string
  Email :: string
  Age :: int
  Country :: string
  Active :: bool
  CreatedAt :: time
  UpdatedAt :: time

text \<open>
  Of \<^verbatim>\<open>Store\<close> the table and the counter are modelled. The lock \<^verbatim>\<open>mu\<close> is held by every
  handler around its accesses to the table, so each handler is one atomic step on the
  store; the request statistics \<^verbatim>\<open>stats\<close> are not read by the user handlers.
\<close>

record Store =
  users :: "int \<rightharpoonup> User"
  nextID :: int

record PaginatedResponse =
  Data :: "User list"
  Page :: int
  PerPage :: int
  Total :: int
  TotalPages :: int

text \<open>The anonymous input structs of \<^verbatim>\<open>createUser\<close> (also the entries of
  \<^verbatim>\<open>BatchCreateRequest\<close>) and of \<^verbatim>\<open>updateUser\<close>, whose \<^verbatim>\<open>Age\<close> is a pointer.\<close>

record CreateInput =
  inName :: string
  inEmail :: string
  inAge :: int
  inCountry :: string

record UpdateInput =
  upName :: string
  upEmail :: string
  upAge :: "int option"
  upCountry :: string

text \<open>
  The messages of \<^verbatim>\<open>respondError\<close>, one constructor for each text in the source:
  "Invalid JSON format", "Invalid ID", "Name and email are required", "Invalid email
  format", "Age must be between 0 and 150", "User not found", "Invalid request format",
  "No users provided", "Maximum 100 users per batch", "No IDs provided".
\<close>

datatype error =
    InvalidJSON
  | InvalidID
  | NameEmailRequired
  | InvalidEmail
  | AgeOutOfRange
  | UserNotFound
  | InvalidRequest
  | NoUsersProvided
  | BatchTooLarge
  | NoIDsProvided

datatype Body =
    ErrorBody error
  | UserBody User
  | PageBody PaginatedResponse
  | SearchBody "User list" nat
  | MessageBody
  | CreatedBody "User list" nat
  | DeletedBody "int list" nat

type_synonym Response = "nat \<times> Body"

abbreviation StatusOK :: nat where "StatusOK \<equiv> 200"
abbreviation StatusCreated :: nat where "StatusCreated \<equiv> 201"
abbreviation StatusBadRequest :: nat where "StatusBadRequest \<equiv> 400"
abbreviation StatusNotFound :: nat where "StatusNotFound \<equiv> 404"

definition respondJSON :: "nat \<Rightarrow> Body \<Rightarrow> Response" where
  "respondJSON status data = (status, data)"

definition respondError :: "nat \<Rightarrow> error \<Rightarrow> Response" where
  "respondError status message = respondJSON status (ErrorBody message)"

text \<open>
  \<^verbatim>\<open>for _, user := range store.users\<close> visits every entry of the table once, in an order
  that Go leaves open. The order of a loop is the argument \<open>keys\<close>: the keys in the order
  in which the loop visits them.
\<close>

definition range_users :: "int list \<Rightarrow> Store \<Rightarrow> User list" where
  "range_users keys s = List.map_filter (users s) keys"

definition store0 :: Store where
  "store0 = \<lparr>users = Map.empty, nextID = 1\<rparr>"

definition initTestData :: "time \<Rightarrow> Store \<Rightarrow> Store" where
  "initTestData now s =
     s\<lparr>users := (users s)
         (1 \<mapsto> \<lparr>ID = 1,
                Name = [CHR 0xD0, CHR 0x98, CHR 0xD0, CHR 0xB2, CHR 0xD0, CHR 0xB0, CHR 0xD0,
                        CHR 0xBD] @ '' '' @
                       [CHR 0xD0, CHR 0x9F, CHR 0xD0, CHR 0xB5, CHR 0xD1, CHR 0x82, CHR 0xD1,
                        CHR 0x80, CHR 0xD0, CHR 0xBE, CHR 0xD0, CHR 0xB2],
                Email = ''ivan@example.com'', Age = 30, Country = ''Russia'', Active = True,
                CreatedAt = now, UpdatedAt = now\<rparr>,
          2 \<mapsto> \<lparr>ID = 2,
                Name = [CHR 0xD0, CHR 0x9C, CHR 0xD0, CHR 0xB0, CHR 0xD1, CHR 0x80, CHR 0xD0,
                        CHR 0xB8, CHR 0xD1, CHR 0x8F] @ '' '' @
                       [CHR 0xD0, CHR 0xA1, CHR 0xD0, CHR 0xB8, CHR 0xD0, CHR 0xB4, CHR 0xD0,
                        CHR 0xBE, CHR 0xD1, CHR 0x80, CHR 0xD0, CHR 0xBE, CHR 0xD0, CHR 0xB2,
                        CHR 0xD0, CHR 0xB0],
                Email = ''maria@example.com'', Age = 25, Country = ''Russia'', Active = True,
                CreatedAt = now, UpdatedAt = now\<rparr>,
          3 \<mapsto> \<lparr>ID = 3,
                Name = [CHR 0xD0, CHR 0x9F, CHR 0xD0, CHR 0xB5, CHR 0xD1, CHR 0x82, CHR 0xD1,
                        CHR 0x80] @ '' '' @
                       [CHR 0xD0, CHR 0x98, CHR 0xD0, CHR 0xB2, CHR 0xD0, CHR 0xB0, CHR 0xD0,
                        CHR 0xBD, CHR 0xD0, CHR 0xBE, CHR 0xD0, CHR 0xB2],
                Email = ''petr@example.com'', Age = 35, Country = ''Ukraine'', Active = False,
                CreatedAt = now, UpdatedAt = now\<rparr>,
          4 \<mapsto> \<lparr>ID = 4, Name = ''John Smith'', Email = ''john@example.com'', Age = 28,
                Country = ''USA'', Active = True, CreatedAt = now, UpdatedAt = now\<rparr>,
          5 \<mapsto> \<lparr>ID = 5, Name = ''Anna Schmidt'', Email = ''anna@example.com'', Age = 32,
                Country = ''Germany'', Active = True, CreatedAt = now, UpdatedAt = now\<rparr>),
       nextID := 6\<rparr>"

subsection \<open>Listing\<close>

text \<open>
  The sorting loops of \<^verbatim>\<open>getUsers\<close>: for every \<open>i\<close>, for every \<open>j\<close> after \<open>i\<close>, the
  two elements are exchanged when they are out of order.
\<close>

definition exchange :: "('a \<Rightarrow> 'a \<Rightarrow> bool) \<Rightarrow> nat \<Rightarrow> nat \<Rightarrow> 'a list \<Rightarrow> 'a list" where
  "exchange out i j xs = (if out (xs ! i) (xs ! j) then xs[i := xs ! j, j := xs ! i] else xs)"

definition exchange_sort :: "('a \<Rightarrow> 'a \<Rightarrow> bool) \<Rightarrow> 'a list \<Rightarrow> 'a list" where
  "exchange_sort out xs =
     fold (\<lambda>i ys. fold (exchange out i) [Suc i..<length xs] ys) [0..<length xs] xs"

definition sort_users :: "string \<Rightarrow> string \<Rightarrow> User list \<Rightarrow> User list" where
  "sort_users sortBy ord allUsers =
     (if sortBy = ''name'' then
        (if ord = ''desc'' then exchange_sort (\<lambda>a b. Name a < Name b) allUsers
         else exchange_sort (\<lambda>a b. Name a > Name b) allUsers)
      else if sortBy = ''age'' then
        (if ord = ''desc'' then exchange_sort (\<lambda>a b. Age a < Age b) allUsers
         else exchange_sort (\<lambda>a b. Age a > Age b) allUsers)
      else if sortBy = ''created'' then
        (if ord = ''desc'' then exchange_sort (\<lambda>a b. CreatedAt a < CreatedAt b) allUsers
         else exchange_sort (\<lambda>a b. CreatedAt a > CreatedAt b) allUsers)
      else allUsers)"

text \<open>
  The query parameters \<^verbatim>\<open>page\<close> and \<^verbatim>\<open>per_page\<close> arrive as the result of
  \<^verbatim>\<open>strconv.Atoi\<close>: \<open>None\<close> when the parameter is absent or is not a number.
\<close>

definition page_of :: "int option \<Rightarrow> int" where
  "page_of pageQ = (case pageQ of Some p \<Rightarrow> if p > 0 then p else 1 | None \<Rightarrow> 1)"

definition perPage_of :: "int option \<Rightarrow> int" where
  "perPage_of perPageQ =
     (case perPageQ of Some pp \<Rightarrow> if pp > 0 \<and> pp \<le> 100 then pp else 10 | None \<Rightarrow> 10)"

text \<open>
  The slice expression \<^verbatim>\<open>allUsers[start:end]\<close> panics unless
  \<open>0 \<le> start \<le> end \<le> cap(allUsers)\<close>; the capacity of \<^verbatim>\<open>allUsers\<close> is its length.
\<close>

definition slice :: "'a list \<Rightarrow> int \<Rightarrow> int \<Rightarrow> 'a list outcome" where
  "slice xs lo hi =
     (if 0 \<le> lo \<and> lo \<le> hi \<and> hi \<le> int (length xs)
      then Returns (take (nat (hi - lo)) (drop (nat lo) xs))
      else Panics)"

definition getUsers ::
  "int list \<Rightarrow> string \<Rightarrow> string \<Rightarrow> int option \<Rightarrow> int option \<Rightarrow> Store \<Rightarrow> Response outcome" where
  "getUsers keys sortBy ord pageQ perPageQ s =
     (let page = page_of pageQ;
          perPage = perPage_of perPageQ;
          allUsers = sort_users sortBy ord (range_users keys s);
          total = int (length allUsers);
          totalPages = quot (wrap64 (total + perPage - 1)) perPage;
          start = wrap64 ((page - 1) * perPage);
          endIdx = wrap64 (start + perPage)
      in if start \<ge> total then
           Returns (respondJSON StatusOK (PageBody
             \<lparr>Data = [], Page = page, PerPage = perPage, Total = total,
              TotalPages = totalPages\<rparr>))
         else
           (case slice allUsers start (if endIdx > total then total else endIdx) of
              Returns window \<Rightarrow>
                Returns (respondJSON StatusOK (PageBody
                  \<lparr>Data = window, Page = page, PerPage = perPage, Total = total,
                   TotalPages = totalPages\<rparr>))
            | Blocks \<Rightarrow> Blocks
            | Panics \<Rightarrow> Panics))"

subsection \<open>Reading, creating, updating and deleting one user\<close>

text \<open>
  The path variable \<^verbatim>\<open>id\<close> arrives as the result of \<^verbatim>\<open>strconv.Atoi\<close> and the request
  body as the result of the JSON decoder: \<open>None\<close> when they fail.
\<close>

definition getUser :: "int option \<Rightarrow> Store \<Rightarrow> Response" where
  "getUser idv s =
     (case idv of
        None \<Rightarrow> respondError StatusBadRequest InvalidID
      | Some i \<Rightarrow>
          (case users s i of
             None \<Rightarrow> respondError StatusNotFound UserNotFound
           | Some user \<Rightarrow> respondJSON StatusOK (UserBody user)))"

text \<open>
  \<^verbatim>\<open>createUser\<close> up to the release of the lock (server.go:1476-1518): decoding,
  the checks, the insertion, and the answer that the handler has ready at that point. The
  rest of the handler, which hands the record to the hub before it writes the answer,
  follows with the hub.
\<close>

definition createUser_store ::
  "(string \<Rightarrow> string) \<Rightarrow> time \<Rightarrow> CreateInput option \<Rightarrow> Store \<Rightarrow> Response \<times> Store" where
  "createUser_store ToLower now body s =
     (case body of
        None \<Rightarrow> (respondError StatusBadRequest InvalidJSON, s)
      | Some input \<Rightarrow>
          if inName input = [] \<or> inEmail input = [] then
            (respondError StatusBadRequest NameEmailRequired, s)
          else if \<not> MatchString emailRegex (ToLower (inEmail input)) then
            (respondError StatusBadRequest InvalidEmail, s)
          else if inAge input < 0 \<or> inAge input > 150 then
            (respondError StatusBadRequest AgeOutOfRange, s)
          else
            (let user = \<lparr>ID = nextID s, Name = inName input, Email = inEmail input,
                         Age = inAge input, Country = inCountry input, Active = True,
                         CreatedAt = now, UpdatedAt = now\<rparr>
             in (respondJSON StatusCreated (UserBody user),
                 s\<lparr>users := (users s)(nextID s \<mapsto> user), nextID := nextID s + 1\<rparr>)))"

definition updateUser ::
  "(string \<Rightarrow> string) \<Rightarrow> time \<Rightarrow> int option \<Rightarrow> UpdateInput option \<Rightarrow> Store \<Rightarrow> Response \<times> Store"
  where
  "updateUser ToLower now idv body s =
     (case idv of
        None \<Rightarrow> (respondError StatusBadRequest InvalidID, s)
      | Some i \<Rightarrow>
     (case body of
        None \<Rightarrow> (respondError StatusBadRequest InvalidJSON, s)
      | Some input \<Rightarrow>
     (case users s i of
        None \<Rightarrow> (respondError StatusNotFound UserNotFound, s)
      | Some user0 \<Rightarrow>
          (let user1 = (if upName input \<noteq> [] then user0\<lparr>Name := upName input\<rparr> else user0)
           in if upEmail input \<noteq> [] \<and> \<not> MatchString emailRegex (ToLower (upEmail input)) then
                (respondError StatusBadRequest InvalidEmail, s)
              else
                (let user2 = (if upEmail input \<noteq> [] then user1\<lparr>Email := upEmail input\<rparr>
                              else user1)
                 in if (case upAge input of Some a \<Rightarrow> a < 0 \<or> a > 150 | None \<Rightarrow> False) then
                      (respondError StatusBadRequest AgeOutOfRange, s)
                    else
                      (let user3 = (case upAge input of Some a \<Rightarrow> user2\<lparr>Age := a\<rparr>
                                    | None \<Rightarrow> user2);
                           user4 = (if upCountry input \<noteq> [] then user3\<lparr>Country := upCountry input\<rparr>
                                    else user3);
                           user = user4\<lparr>UpdatedAt := now\<rparr>
                       in (respondJSON StatusOK (UserBody user),
                           s\<lparr>users := (users s)(i \<mapsto> user)\<rparr>)))))))"

definition deleteUser :: "int option \<Rightarrow> Store \<Rightarrow> Response \<times> Store" where
  "deleteUser idv s =
     (case idv of
        None \<Rightarrow> (respondError StatusBadRequest InvalidID, s)
      | Some i \<Rightarrow>
          (case users s i of
             None \<Rightarrow> (respondError StatusNotFound UserNotFound, s)
           | Some user \<Rightarrow>
               (respondJSON StatusOK MessageBody, s\<lparr>users := (users s)(i := None)\<rparr>)))"

definition activateUser :: "time \<Rightarrow> int option \<Rightarrow> Store \<Rightarrow> Response \<times> Store" where
  "activateUser now idv s =
     (case idv of
        None \<Rightarrow> (respondError StatusBadRequest InvalidID, s)
      | Some i \<Rightarrow>
          (case users s i of
             None \<Rightarrow> (respondError StatusNotFound UserNotFound, s)
           | Some user0 \<Rightarrow>
               (let user = user0\<lparr>Active := True, UpdatedAt := now\<rparr>
                in (respondJSON StatusOK (UserBody user), s\<lparr>users := (users s)(i \<mapsto> user)\<rparr>))))"

definition deactivateUser :: "time \<Rightarrow> int option \<Rightarrow> Store \<Rightarrow> Response \<times> Store" where
  "deactivateUser now idv s =
     (case idv of
        None \<Rightarrow> (respondError StatusBadRequest InvalidID, s)
      | Some i \<Rightarrow>
          (case users s i of
             None \<Rightarrow> (respondError StatusNotFound UserNotFound, s)
           | Some user0 \<Rightarrow>
               (let user = user0\<lparr>Active := False, UpdatedAt := now\<rparr>
                in (respondJSON StatusOK (UserBody user), s\<lparr>users := (users s)(i \<mapsto> user)\<rparr>))))"

subsection \<open>Searching\<close>

text \<open>
  The query parameters \<^verbatim>\<open>q\<close>, \<^verbatim>\<open>country\<close> and \<^verbatim>\<open>active\<close> are strings, empty when
  absent. The error of \<^verbatim>\<open>strconv.ParseBool\<close> is dropped and the value it returns with
  an error is \<^verbatim>\<open>false\<close>.
\<close>

definition search_keeps :: "(string \<Rightarrow> string) \<Rightarrow> string \<Rightarrow> string \<Rightarrow> string \<Rightarrow> User \<Rightarrow> bool" where
  "search_keeps ToLower query country activeStr user =
     (if query \<noteq> [] \<and> \<not> Contains (ToLower (Name user)) query
           \<and> \<not> Contains (ToLower (Email user)) query then False
      else if country \<noteq> [] \<and> Country user \<noteq> country then False
      else if activeStr \<noteq> []
           \<and> Active user \<noteq> (case ParseBool activeStr of Some b \<Rightarrow> b | None \<Rightarrow> False) then False
      else True)"

definition searchUsers ::
  "(string \<Rightarrow> string) \<Rightarrow> int list \<Rightarrow> string \<Rightarrow> string \<Rightarrow> string \<Rightarrow> Store \<Rightarrow> Response" where
  "searchUsers ToLower keys q country activeStr s =
     (let query = ToLower q;
          results = filter (search_keeps ToLower query country activeStr) (range_users keys s)
      in respondJSON StatusOK (SearchBody results (length results)))"

subsection \<open>Batch operations\<close>

text \<open>
  \<^verbatim>\<open>batchCreateUsers\<close> reads the clock once for every entry that passes its checks; every
  entry of the request comes with the reading the loop gets for it.
\<close>

definition batch_create_step ::
  "(string \<Rightarrow> string) \<Rightarrow> time \<times> CreateInput \<Rightarrow> User list \<times> Store \<Rightarrow> User list \<times> Store" where
  "batch_create_step ToLower entry acc =
     (case entry of (now, userReq) \<Rightarrow>
      case acc of (createdUsers, s) \<Rightarrow>
        if inName userReq = [] \<or> inEmail userReq = [] then (createdUsers, s)
        else if \<not> MatchString emailRegex (ToLower (inEmail userReq)) then (createdUsers, s)
        else
          (let user = \<lparr>ID = nextID s, Name = inName userReq, Email = inEmail userReq,
                       Age = inAge userReq, Country = inCountry userReq, Active = True,
                       CreatedAt = now, UpdatedAt = now\<rparr>
           in (createdUsers @ [user],
               s\<lparr>users := (users s)(nextID s \<mapsto> user), nextID := nextID s + 1\<rparr>)))"

definition batchCreateUsers ::
  "(string \<Rightarrow> string) \<Rightarrow> (time \<times> CreateInput) list option \<Rightarrow> Store \<Rightarrow> Response \<times> Store" where
  "batchCreateUsers ToLower body s =
     (case body of
        None \<Rightarrow> (respondError StatusBadRequest InvalidRequest, s)
      | Some reqUsers \<Rightarrow>
          if length reqUsers = 0 then (respondError StatusBadRequest NoUsersProvided, s)
          else if length reqUsers > 100 then (respondError StatusBadRequest BatchTooLarge, s)
          else
            (case fold (batch_create_step ToLower) reqUsers ([], s) of
               (createdUsers, s') \<Rightarrow>
                 (respondJSON StatusCreated (CreatedBody createdUsers (length createdUsers)), s')))"

definition batch_delete_step :: "int \<Rightarrow> int list \<times> Store \<Rightarrow> int list \<times> Store" where
  "batch_delete_step i acc =
     (case acc of (deleted, s) \<Rightarrow>
        (case users s i of
           Some user \<Rightarrow> (deleted @ [i], s\<lparr>users := (users s)(i := None)\<rparr>)
         | None \<Rightarrow> (deleted, s)))"

definition batchDeleteUsers :: "int list option \<Rightarrow> Store \<Rightarrow> Response \<times> Store" where
  "batchDeleteUsers body s =
     (case body of
        None \<Rightarrow> (respondError StatusBadRequest InvalidRequest, s)
      | Some ids \<Rightarrow>
          if length ids = 0 then (respondError StatusBadRequest NoIDsProvided, s)
          else
            (case fold batch_delete_step ids ([], s) of
               (deleted, s') \<Rightarrow> (respondJSON StatusOK (DeletedBody deleted (length deleted)), s')))"

subsection \<open>Runs of the server\<close>

text \<open>
  A value of \<^verbatim>\<open>time.Now()\<close> carries a reading of the monotonic clock, and two such values
  are compared by these readings; the clock does not run backwards, and it may stand still
  between two readings. A server state is the latest reading together with the store. A
  request comes with the number of nanoseconds by which the clock has advanced since the
  latest reading; so do the entries of a batch.
\<close>

text \<open>
  A run follows the store: for every request it records the store after the request and
  the answer of the handler. For a create this is the answer that \<^verbatim>\<open>createUser\<close> has
  ready when it releases the lock.
\<close>

datatype request =
    Create "CreateInput option"
  | Update "int option" "UpdateInput option"
  | Delete "int option"
  | Activate "int option"
  | Deactivate "int option"
  | BatchCreate "(nat \<times> CreateInput) list option"
  | BatchDelete "int list option"

type_synonym server = "time \<times> Store"

fun readings :: "time \<Rightarrow> (nat \<times> 'a) list \<Rightarrow> (time \<times> 'a) list" where
  "readings t [] = []"
| "readings t ((d, x) # rest) = (t + int d, x) # readings (t + int d) rest"

text \<open>
  Of \<^verbatim>\<open>StartServer\<close>, what it does to the store before the first request is served: the
  package variable \<^verbatim>\<open>store\<close> starts empty with counter 1, and \<^verbatim>\<open>initTestData\<close> runs
  once. Requests are served one after the other, in the order in which their handlers
  take the lock.
\<close>

definition StartServer :: "time \<Rightarrow> server" where
  "StartServer now = (now, initTestData now store0)"

definition serve :: "(string \<Rightarrow> string) \<Rightarrow> nat \<times> request \<Rightarrow> server \<Rightarrow> Response \<times> server" where
  "serve ToLower dreq w =
     (case dreq of (d, req) \<Rightarrow>
      case w of (clk, s) \<Rightarrow>
        (let now = clk + int d in
         case req of
           Create body \<Rightarrow>
             (case createUser_store ToLower now body s of (r, s') \<Rightarrow> (r, (now, s')))
         | Update idv body \<Rightarrow>
             (case updateUser ToLower now idv body s of (r, s') \<Rightarrow> (r, (now, s')))
         | Delete idv \<Rightarrow>
             (case deleteUser idv s of (r, s') \<Rightarrow> (r, (now, s')))
         | Activate idv \<Rightarrow>
             (case activateUser now idv s of (r, s') \<Rightarrow> (r, (now, s')))
         | Deactivate idv \<Rightarrow>
             (case deactivateUser now idv s of (r, s') \<Rightarrow> (r, (now, s')))
         | BatchCreate body \<Rightarrow>
             (case batchCreateUsers ToLower (map_option (readings now) body) s of
                (r, s') \<Rightarrow> (r, (now + int (sum_list (map fst (case_option [] id body))), s')))
         | BatchDelete body \<Rightarrow>
             (case batchDeleteUsers body s of (r, s') \<Rightarrow> (r, (now, s')))))"

fun run :: "(string \<Rightarrow> string) \<Rightarrow> (nat \<times> request) list \<Rightarrow> server \<Rightarrow> Response list \<times> server" where
  "run ToLower [] w = ([], w)"
| "run ToLower (dreq # rest) w =
     (case serve ToLower dreq w of (r, w') \<Rightarrow>
        (case run ToLower rest w' of (rs, w'') \<Rightarrow> (r # rs, w'')))"

text \<open>The identifiers a response reports as newly assigned.\<close>

fun assigned :: "Response \<Rightarrow> int list" where
  "assigned (status, UserBody user) = (if status = StatusCreated then [ID user] else [])"
| "assigned (status, CreatedBody createdUsers n) = map ID createdUsers"
| "assigned (status, other) = []"

text \<open>
  The invariant of the store at clock reading \<open>clk\<close>: a record is stored under its own
  identifier, identifiers in use are below the counter, and no record was updated before
  it was created or after the latest reading of the clock.
\<close>

definition store_inv :: "server \<Rightarrow> bool" where
  "store_inv w =
     (\<forall>k user. users (snd w) k = Some user \<longrightarrow>
        ID user = k \<and> k < nextID (snd w)
        \<and> CreatedAt user \<le> UpdatedAt user \<and> UpdatedAt user \<le> fst w)"

section \<open>The notification hub (package websocket)\<close>

text \<open>
  The \<^verbatim>\<open>Data\<close> of a message is an \<^verbatim>\<open>interface{}\<close>; the values the server puts there are
  a user record and maps from strings to strings and numbers.
\<close>

datatype payload =
    DStr string
  | DInt int
  | DUser User
  | DObj "(string \<times> payload) list"

record Message =
  Type :: string
  MsgData :: payload
  Timestamp :: time

text \<open>
  A buffered channel: the messages waiting in it, oldest first, its capacity, and whether
  it has been closed. Receiving is done by the client's write pump, which is not part of
  the hub; a hub operation sees the channel as the pump has left it.
\<close>

record Chan =
  buf :: "Message list"
  cap :: nat
  closed :: bool

definition make_chan :: "nat \<Rightarrow> Chan" where
  "make_chan n = \<lparr>buf = [], cap = n, closed = False\<rparr>"

text \<open>
  \<^verbatim>\<open>ch <- msg\<close> panics on a closed channel, appends when the buffer has room, and
  otherwise waits for a receiver.
\<close>

definition send :: "Chan \<Rightarrow> Message \<Rightarrow> Chan outcome" where
  "send ch msg =
     (if closed ch then Panics
      else if length (buf ch) < cap ch then Returns (ch\<lparr>buf := buf ch @ [msg]\<rparr>)
      else Blocks)"

text \<open>
  \<^verbatim>\<open>select { case ch <- msg: default: }\<close>: the send is taken when it can proceed, which
  includes the panic on a closed channel; \<open>None\<close> stands for the default branch.
\<close>

definition try_send :: "Chan \<Rightarrow> Message \<Rightarrow> Chan option outcome" where
  "try_send ch msg =
     (if closed ch then Panics
      else if length (buf ch) < cap ch then Returns (Some (ch\<lparr>buf := buf ch @ [msg]\<rparr>))
      else Returns None)"

text \<open>\<^verbatim>\<open>close(ch)\<close> panics on a channel that is closed already.\<close>

definition close :: "Chan \<Rightarrow> Chan outcome" where
  "close ch = (if closed ch then Panics else Returns (ch\<lparr>closed := True\<rparr>))"

datatype conn = Open | Closed

record Client =
  ClientID :: string
  Conn :: conn
  Send :: Chan

text \<open>
  Clients are shared through pointers: \<^verbatim>\<open>*Client\<close> is an address, and the memory maps
  addresses to clients. The keys of \<^verbatim>\<open>clients\<close> are kept in a list without repetition,
  in the order in which \<^verbatim>\<open>range\<close> visits them. The channels \<^verbatim>\<open>register\<close> and
  \<^verbatim>\<open>unregister\<close> have no buffer: what is sent on them is what the loop receives.
\<close>

type_synonym ref = nat

record Hub =
  clients :: "ref list"
  broadcast :: Chan

type_synonym memory = "ref \<Rightarrow> Client"

type_synonym hub_state = "Hub \<times> memory"

definition NewHub :: Hub where
  "NewHub = \<lparr>clients = [], broadcast = make_chan 256\<rparr>"

text \<open>The client that \<^verbatim>\<open>handleWebSocket\<close> builds for a new connection.\<close>

definition newClient :: "string \<Rightarrow> Client" where
  "newClient cid = \<lparr>ClientID = cid, Conn = Open, Send = make_chan 256\<rparr>"

definition set_send :: "ref \<Rightarrow> Chan \<Rightarrow> memory \<Rightarrow> memory" where
  "set_send c ch m = m(c := (m c)\<lparr>Send := ch\<rparr>)"

definition map_delete :: "ref \<Rightarrow> Hub \<Rightarrow> Hub" where
  "map_delete c h = h\<lparr>clients := removeAll c (clients h)\<rparr>"

definition map_insert :: "ref \<Rightarrow> Hub \<Rightarrow> Hub" where
  "map_insert c h = (if c \<in> set (clients h) then h else h\<lparr>clients := clients h @ [c]\<rparr>)"

text \<open>
  The loop of \<^verbatim>\<open>Run\<close> holds \<^verbatim>\<open>h.mu\<close> only for parts of an iteration, and \<^verbatim>\<open>Shutdown\<close>,
  which is called from another goroutine, can run between two such parts. An iteration is
  therefore modelled in sections; what is left of a started iteration is its pending
  section:
  \<^item> \<open>Greet\<close>: the client has been inserted (part_002:52-54), the call of
    \<^verbatim>\<open>SendToClient\<close> with the welcome message is still to come (58-65);
  \<^item> \<open>Drop\<close>: \<^verbatim>\<open>SendToClient\<close> has closed the queue in its default branch (110), the
    deletion under the lock is still to come (111-113);
  \<^item> \<open>Leave\<close>: the membership test of the unregister case has succeeded (68), the
    deletion and the close under the lock are still to come (69-72).
  The \<^verbatim>\<open>select\<close> of \<^verbatim>\<open>SendToClient\<close> together with the \<^verbatim>\<open>close\<close> of its default branch is
  one section, and so is the whole of \<^verbatim>\<open>Shutdown\<close>, which holds the lock throughout.
\<close>

datatype pending = Idle | Greet ref time | Drop ref | Leave ref

type_synonym loop_state = "hub_state \<times> pending"

definition idle :: "hub_state outcome \<Rightarrow> loop_state outcome" where
  "idle r = (case r of Returns st \<Rightarrow> Returns (st, Idle) | Blocks \<Rightarrow> Blocks | Panics \<Rightarrow> Panics)"

definition SendToClient :: "ref \<Rightarrow> Message \<Rightarrow> hub_state \<Rightarrow> loop_state outcome" where
  "SendToClient client msg st =
     (case st of (h, m) \<Rightarrow>
        (case try_send (Send (m client)) msg of
           Returns (Some ch) \<Rightarrow> Returns ((h, set_send client ch m), Idle)
         | Returns None \<Rightarrow>
             (case close (Send (m client)) of
                Returns ch \<Rightarrow> Returns ((h, set_send client ch m), Drop client)
              | Blocks \<Rightarrow> Blocks
              | Panics \<Rightarrow> Panics)
         | Blocks \<Rightarrow> Blocks
         | Panics \<Rightarrow> Panics))"

definition BroadcastMessage :: "Message \<Rightarrow> hub_state \<Rightarrow> hub_state outcome" where
  "BroadcastMessage msg st =
     (case st of (h, m) \<Rightarrow>
        (case send (broadcast h) msg of
           Returns ch \<Rightarrow> Returns (h\<lparr>broadcast := ch\<rparr>, m)
         | Blocks \<Rightarrow> Blocks
         | Panics \<Rightarrow> Panics))"

definition welcomeMsg :: "string \<Rightarrow> time \<Rightarrow> Message" where
  "welcomeMsg cid now =
     \<lparr>Type = ''welcome'',
      MsgData = DObj
        [(''message'', DStr ([CHR 0xD0, CHR 0x94, CHR 0xD0, CHR 0xBE, CHR 0xD0, CHR 0xB1,
            CHR 0xD1, CHR 0x80, CHR 0xD0, CHR 0xBE] @ '' '' @
           [CHR 0xD0, CHR 0xBF, CHR 0xD0, CHR 0xBE, CHR 0xD0, CHR 0xB6, CHR 0xD0, CHR 0xB0,
            CHR 0xD0, CHR 0xBB, CHR 0xD0, CHR 0xBE, CHR 0xD0, CHR 0xB2, CHR 0xD0, CHR 0xB0,
            CHR 0xD1, CHR 0x82, CHR 0xD1, CHR 0x8C] @ '' '' @
           [CHR 0xD0, CHR 0xB2] @ '' Go Showcase WebSocket!'')),
         (''id'', DStr cid)],
      Timestamp = now\<rparr>"

text \<open>
  The server time of a heartbeat is the text \<^verbatim>\<open>time.Now().Format(time.RFC3339)\<close>; the
  text is an input of the ticker case.
\<close>

definition heartbeat :: "nat \<Rightarrow> string \<Rightarrow> time \<Rightarrow> Message" where
  "heartbeat n server_time now =
     \<lparr>Type = ''heartbeat'',
      MsgData = DObj [(''active_clients'', DInt (int n)), (''server_time'', DStr server_time)],
      Timestamp = now\<rparr>"

definition shutdownMsg :: "time \<Rightarrow> Message" where
  "shutdownMsg now =
     \<lparr>Type = ''shutdown'',
      MsgData = DObj [(''message'', DStr ''Server is shutting down gracefully'')],
      Timestamp = now\<rparr>"

text \<open>The message that \<^verbatim>\<open>createUser\<close> publishes for a new record.\<close>

definition user_created :: "User \<Rightarrow> time \<Rightarrow> Message" where
  "user_created user now = \<lparr>Type = ''user_created'', MsgData = DUser user, Timestamp = now\<rparr>"

text \<open>
  The loop of \<^verbatim>\<open>Run\<close> over the clients for one broadcast message: the keys as they were
  when the loop started are visited one after the other. The loop runs under the read
  lock, so \<^verbatim>\<open>Shutdown\<close> cannot run inside it.
\<close>

fun broadcast_loop :: "Message \<Rightarrow> ref list \<Rightarrow> hub_state \<Rightarrow> hub_state outcome" where
  "broadcast_loop message [] st = Returns st"
| "broadcast_loop message (client # rest) (h, m) =
     (case try_send (Send (m client)) message of
        Returns (Some ch) \<Rightarrow> broadcast_loop message rest (h, set_send client ch m)
      | Returns None \<Rightarrow>
          (case close (Send (m client)) of
             Returns ch \<Rightarrow>
               broadcast_loop message rest (map_delete client h, set_send client ch m)
           | Blocks \<Rightarrow> Blocks
           | Panics \<Rightarrow> Panics)
      | Blocks \<Rightarrow> Blocks
      | Panics \<Rightarrow> Panics)"

text \<open>
  The first section of an iteration of the loop of \<^verbatim>\<open>Run\<close>, for the case that
  \<^verbatim>\<open>select\<close> takes, with the section that is pending after it. The case of a broadcast
  needs a message in \<^verbatim>\<open>h.broadcast\<close>; without one the loop waits. The ticker case reads
  the clock for the server time and for the timestamp.
\<close>

datatype event =
    Register ref time
  | Unregister ref
  | Broadcast
  | Tick string time

fun Run :: "event \<Rightarrow> hub_state \<Rightarrow> loop_state outcome" where
  "Run (Register client now) (h, m) = Returns ((map_insert client h, m), Greet client now)"
| "Run (Unregister client) (h, m) =
     (if client \<in> set (clients h) then Returns ((h, m), Leave client)
      else Returns ((h, m), Idle))"
| "Run Broadcast (h, m) =
     (case buf (broadcast h) of
        [] \<Rightarrow> Blocks
      | message # waiting \<Rightarrow>
          idle (broadcast_loop message (clients h)
                  (h\<lparr>broadcast := (broadcast h)\<lparr>buf := waiting\<rparr>\<rparr>, m)))"
| "Run (Tick server_time now) (h, m) =
     idle (BroadcastMessage (heartbeat (length (clients h)) server_time now) (h, m))"

text \<open>The pending section of a started iteration.\<close>

fun resume :: "pending \<Rightarrow> hub_state \<Rightarrow> loop_state outcome" where
  "resume Idle st = Returns (st, Idle)"
| "resume (Greet client now) (h, m) =
     SendToClient client (welcomeMsg (ClientID (m client)) now) (h, m)"
| "resume (Drop client) (h, m) = Returns ((map_delete client h, m), Idle)"
| "resume (Leave client) (h, m) =
     (case close (Send (m client)) of
        Returns ch \<Rightarrow> Returns ((map_delete client h, set_send client ch m), Idle)
      | Blocks \<Rightarrow> Blocks
      | Panics \<Rightarrow> Panics)"

definition GetStats :: "time \<Rightarrow> hub_state \<Rightarrow> nat \<times> time" where
  "GetStats now st = (length (clients (fst st)), now)"

text \<open>
  The loop of \<^verbatim>\<open>Shutdown\<close>: a send that waits for room, then the channel and the
  connection are closed.
\<close>

fun shutdown_loop :: "Message \<Rightarrow> ref list \<Rightarrow> memory \<Rightarrow> memory outcome" where
  "shutdown_loop msg [] m = Returns m"
| "shutdown_loop msg (client # rest) m =
     (case send (Send (m client)) msg of
        Returns ch \<Rightarrow>
          (case close ch of
             Returns ch' \<Rightarrow>
               shutdown_loop msg rest (m(client := (m client)\<lparr>Send := ch', Conn := Closed\<rparr>))
           | Blocks \<Rightarrow> Blocks
           | Panics \<Rightarrow> Panics)
      | Blocks \<Rightarrow> Blocks
      | Panics \<Rightarrow> Panics)"

definition Shutdown :: "time \<Rightarrow> hub_state \<Rightarrow> hub_state outcome" where
  "Shutdown now st =
     (case st of (h, m) \<Rightarrow>
        (case shutdown_loop (shutdownMsg now) (clients h) m of
           Returns m' \<Rightarrow> Returns (h\<lparr>clients := []\<rparr>, m')
         | Blocks \<Rightarrow> Blocks
         | Panics \<Rightarrow> Panics))"

text \<open>
  What the program does to a hub, section by section: the loop at its \<^verbatim>\<open>select\<close> takes
  a case (possible only when no section is pending; a sender on \<^verbatim>\<open>register\<close> or
  \<^verbatim>\<open>unregister\<close> waits otherwise), the loop goes on with its pending section, a request
  handler or a read pump calls \<^verbatim>\<open>BroadcastMessage\<close>, and \<^verbatim>\<open>StartServer\<close> calls
  \<^verbatim>\<open>Shutdown\<close>. The last two do not change what is pending in the loop.
\<close>

datatype action = Loop event | Next | Publish Message | Stop time

definition keep :: "pending \<Rightarrow> hub_state outcome \<Rightarrow> loop_state outcome" where
  "keep p r = (case r of Returns st \<Rightarrow> Returns (st, p) | Blocks \<Rightarrow> Blocks | Panics \<Rightarrow> Panics)"

fun act :: "action \<Rightarrow> loop_state \<Rightarrow> loop_state outcome" where
  "act (Loop e) (st, p) = (if p = Idle then Run e st else Blocks)"
| "act Next (st, p) = resume p st"
| "act (Publish msg) (st, p) = keep p (BroadcastMessage msg st)"
| "act (Stop now) (st, p) = keep p (Shutdown now st)"

fun acts :: "action list \<Rightarrow> loop_state \<Rightarrow> loop_state outcome" where
  "acts [] ls = Returns ls"
| "acts (a # rest) ls =
     (case act a ls of
        Returns ls' \<Rightarrow> acts rest ls'
      | Blocks \<Rightarrow> Blocks
      | Panics \<Rightarrow> Panics)"

section \<open>The handler createUser\<close>

text \<open>
  The whole of \<^verbatim>\<open>createUser\<close> (server.go:1475-1529). After the insertion and the release
  of the lock, and before it writes its answer, the handler calls
  \<^verbatim>\<open>hub.BroadcastMessage\<close> when the package variable \<^verbatim>\<open>hub\<close> is set; that call is a send
  on \<^verbatim>\<open>h.broadcast\<close>, which waits while the channel is full. The result is the store after
  the call together with what becomes of the answer: when the send waits, the record is in
  the store and no answer is written. \<open>now\<close> is the clock reading for the record and
  \<open>sent\<close> the one for the timestamp of the message; \<open>None\<close> is the hub before
  \<^verbatim>\<open>StartServer\<close> has set it.
\<close>

definition createUser ::
  "(string \<Rightarrow> string) \<Rightarrow> time \<Rightarrow> time \<Rightarrow> CreateInput option \<Rightarrow> Store \<Rightarrow> hub_state option
   \<Rightarrow> Store \<times> (Response \<times> hub_state option) outcome" where
  "createUser ToLower now sent body s hub =
     (case body of
        None \<Rightarrow> (s, Returns (respondError StatusBadRequest InvalidJSON, hub))
      | Some input \<Rightarrow>
          if inName input = [] \<or> inEmail input = [] then
            (s, Returns (respondError StatusBadRequest NameEmailRequired, hub))
          else if \<not> MatchString emailRegex (ToLower (inEmail input)) then
            (s, Returns (respondError StatusBadRequest InvalidEmail, hub))
          else if inAge input < 0 \<or> inAge input > 150 then
            (s, Returns (respondError StatusBadRequest AgeOutOfRange, hub))
          else
            (let user = \<lparr>ID = nextID s, Name = inName input, Email = inEmail input,
                         Age = inAge input, Country = inCountry input, Active = True,
                         CreatedAt = now, UpdatedAt = now\<rparr>;
                 s' = s\<lparr>users := (users s)(nextID s \<mapsto> user), nextID := nextID s + 1\<rparr>
             in case hub of
                  None \<Rightarrow> (s', Returns (respondJSON StatusCreated (UserBody user), None))
                | Some st \<Rightarrow>
                    (case BroadcastMessage (user_created user sent) st of
                       Returns st' \<Rightarrow>
                         (s', Returns (respondJSON StatusCreated (UserBody user), Some st'))
                     | Blocks \<Rightarrow> (s', Blocks)
                     | Panics \<Rightarrow> (s', Panics))))"

section \<open>Invariants of the hub\<close>

text \<open>
  The hub keeps its registered clients without repetition and their channels open; a
  channel is closed only together with the removal of its client. Its own channel
  \<^verbatim>\<open>broadcast\<close> is the one \<^verbatim>\<open>NewHub\<close> made: open, with room for 256 messages.
\<close>

definition hub_inv :: "hub_state \<Rightarrow> bool" where
  "hub_inv st =
     (distinct (clients (fst st))
      \<and> (\<forall>c \<in> set (clients (fst st)). \<not> closed (Send (snd st c)))
      \<and> \<not> closed (broadcast (fst st)) \<and> cap (broadcast (fst st)) = 256)"

definition full :: "Chan \<Rightarrow> bool" where
  "full ch = (\<not> length (buf ch) < cap ch)"

text \<open>
  While the section \<open>Greet\<close> or \<open>Drop\<close> of a client is pending, that client is in the
  set although its queue may be closed.
\<close>

definition flawed_inv :: "ref \<Rightarrow> hub_state \<Rightarrow> bool" where
  "flawed_inv client st =
     (distinct (clients (fst st))
      \<and> (\<forall>c \<in> set (clients (fst st)). c \<noteq> client \<longrightarrow> \<not> closed (Send (snd st c)))
      \<and> \<not> closed (broadcast (fst st)) \<and> cap (broadcast (fst st)) = 256)"

fun loop_inv :: "loop_state \<Rightarrow> bool" where
  "loop_inv (st, Idle) = hub_inv st"
| "loop_inv (st, Leave client) = hub_inv st"
| "loop_inv (st, Greet client now) = flawed_inv client st"
| "loop_inv (st, Drop client) = flawed_inv client st"

section \<open>Properties of the user store\<close>

lemmas run_defs = StartServer_def initTestData_def store0_def serve_def createUser_store_def
  updateUser_def deleteUser_def activateUser_def deactivateUser_def respondJSON_def
  respondError_def Let_def emailRegex_def many1_def many2_def lower_digit_def
  ascii_lower_def ascii_lower_char_def getUser_def

lemma serve_Create:
  "serve L (d, Create body) (clk, s) =
     (fst (createUser_store L (clk + int d) body s), clk + int d, snd (createUser_store L (clk + int d) body s))"
  by (simp add: serve_def Let_def split: prod.splits)

lemma serve_Update:
  "serve L (d, Update idv body) (clk, s) =
     (fst (updateUser L (clk + int d) idv body s), clk + int d,
      snd (updateUser L (clk + int d) idv body s))"
  by (simp add: serve_def Let_def split: prod.splits)

lemma serve_Delete:
  "serve L (d, Delete idv) (clk, s) = (fst (deleteUser idv s), clk + int d, snd (deleteUser idv s))"
  by (simp add: serve_def Let_def split: prod.splits)

lemma serve_Activate:
  "serve L (d, Activate idv) (clk, s) =
     (fst (activateUser (clk + int d) idv s), clk + int d, snd (activateUser (clk + int d) idv s))"
  by (simp add: serve_def Let_def split: prod.splits)

lemma serve_Deactivate:
  "serve L (d, Deactivate idv) (clk, s) =
     (fst (deactivateUser (clk + int d) idv s), clk + int d,
      snd (deactivateUser (clk + int d) idv s))"
  by (simp add: serve_def Let_def split: prod.splits)

lemma serve_BatchDelete:
  "serve L (d, BatchDelete body) (clk, s) =
     (fst (batchDeleteUsers body s), clk + int d, snd (batchDeleteUsers body s))"
  by (simp add: serve_def Let_def split: prod.splits)

lemma serve_BatchCreate:
  "serve L (d, BatchCreate body) (clk, s) =
     (fst (batchCreateUsers L (map_option (readings (clk + int d)) body) s),
      clk + int d + int (sum_list (map fst (case_option [] id body))),
      snd (batchCreateUsers L (map_option (readings (clk + int d)) body) s))"
  by (simp add: serve_def Let_def split: prod.splits)

text \<open>
  The counter is incremented in \<^typ>\<open>int\<close>; this is the 64-bit increment of the source
  for every counter value below the largest 64-bit integer.
\<close>

lemma increment_fits: "- (2 ^ 63) \<le> n \<Longrightarrow> n < 2 ^ 63 - 1 \<Longrightarrow> wrap64 (n + 1) = n + 1"
  by (simp add: wrap64_def)

subsection \<open>Failed validation\<close>

lemma createUser_error_keeps:
  "fst (createUser_store L now body s) = (st, ErrorBody e) \<Longrightarrow> snd (createUser_store L now body s) = s"
  by (auto simp: createUser_store_def respondError_def respondJSON_def Let_def
      split: option.splits if_splits)

lemma updateUser_error_keeps:
  "fst (updateUser L now idv body s) = (st, ErrorBody e)
   \<Longrightarrow> snd (updateUser L now idv body s) = s"
  by (auto simp: updateUser_def respondError_def respondJSON_def Let_def
      split: option.splits if_splits)

lemma createUser_store_part:
  "fst (createUser L now sent body s hub) = snd (createUser_store L now body s)"
  by (simp add: createUser_def createUser_store_def Let_def
      split: option.splits outcome.splits)

lemma createUser_answer:
  "snd (createUser L now sent body s hub) = Returns (r, hub')
   \<Longrightarrow> r = fst (createUser_store L now body s)"
  by (auto simp: createUser_def createUser_store_def Let_def
      split: option.splits outcome.splits if_splits)

lemma createUser_error_keeps_hub:
  "snd (createUser L now sent body s hub) = Returns ((st, ErrorBody e), hub')
   \<Longrightarrow> fst (createUser L now sent body s hub) = s \<and> hub' = hub"
  by (auto simp: createUser_def respondError_def respondJSON_def Let_def
      split: option.splits outcome.splits if_splits)

text \<open>
  Claim C9. A create with an empty name, an empty address, an address that does not match
  the pattern or an age outside 0..150 answers with status 400, returns the store it was
  given and does not touch the hub; an update of an existing user with a non-empty address
  that does not match or with an age outside 0..150 answers with status 400 and returns
  the store it was given. More generally, whenever \<^verbatim>\<open>createUser\<close> or \<^verbatim>\<open>updateUser\<close>
  answers with an error, the store is the one before the call: no record is inserted,
  none is changed, and no timestamp is refreshed.
\<close>

theorem validation_error_leaves_store:
  "(inName inp = [] \<or> inEmail inp = [] \<or> \<not> MatchString emailRegex (L (inEmail inp))
      \<or> inAge inp < 0 \<or> inAge inp > 150
     \<longrightarrow> (\<exists>e. createUser L now sent (Some inp) s hub
               = (s, Returns (respondError StatusBadRequest e, hub))))
   \<and> (users s i = Some old
        \<and> ((upEmail up \<noteq> [] \<and> \<not> MatchString emailRegex (L (upEmail up)))
            \<or> (\<exists>a. upAge up = Some a \<and> (a < 0 \<or> a > 150)))
     \<longrightarrow> (\<exists>e. updateUser L now (Some i) (Some up) s = (respondError StatusBadRequest e, s)))
   \<and> (\<forall>st e hub'. snd (createUser L now sent body s hub) = Returns ((st, ErrorBody e), hub')
         \<longrightarrow> fst (createUser L now sent body s hub) = s \<and> hub' = hub)
   \<and> (\<forall>st e. fst (updateUser L now idv ubody s) = (st, ErrorBody e)
         \<longrightarrow> snd (updateUser L now idv ubody s) = s)"
proof (intro conjI impI allI)
  assume "inName inp = [] \<or> inEmail inp = [] \<or> \<not> MatchString emailRegex (L (inEmail inp))
      \<or> inAge inp < 0 \<or> inAge inp > 150"
  then show "\<exists>e. createUser L now sent (Some inp) s hub
               = (s, Returns (respondError StatusBadRequest e, hub))"
    by (auto simp: createUser_def)
next
  assume "users s i = Some old
        \<and> ((upEmail up \<noteq> [] \<and> \<not> MatchString emailRegex (L (upEmail up)))
            \<or> (\<exists>a. upAge up = Some a \<and> (a < 0 \<or> a > 150)))"
  then show "\<exists>e. updateUser L now (Some i) (Some up) s = (respondError StatusBadRequest e, s)"
    by (auto simp: updateUser_def Let_def)
next
  fix st e hub'
  assume a: "snd (createUser L now sent body s hub) = Returns ((st, ErrorBody e), hub')"
  from createUser_error_keeps_hub[OF a]
  show "fst (createUser L now sent body s hub) = s" by simp
  from createUser_error_keeps_hub[OF a] show "hub' = hub" by simp
next
  fix st e assume "fst (updateUser L now idv ubody s) = (st, ErrorBody e)"
  then show "snd (updateUser L now idv ubody s) = s" by (rule updateUser_error_keeps)
qed

theorem validation_error_leaves_store_witness:
  "createUser ascii_lower 7 8
      (Some \<lparr>inName = ''Bob'', inEmail = ''bob@example'', inAge = 20, inCountry = []\<rparr>) store0
      None
     = (store0, Returns (respondError StatusBadRequest InvalidEmail, None))
   \<and> updateUser ascii_lower 7 (Some 1)
      (Some \<lparr>upName = ''Bob'', upEmail = [], upAge = Some 151, upCountry = []\<rparr>)
      (initTestData 3 store0)
     = (respondError StatusBadRequest AgeOutOfRange, initTestData 3 store0)"
  using validation_error_leaves_store
    [where inp = "\<lparr>inName = ''Bob'', inEmail = ''bob@example'', inAge = 20, inCountry = []\<rparr>"
       and L = ascii_lower and now = 7 and sent = 8 and s = store0 and hub = None]
  by (simp add: run_defs createUser_def)

subsection \<open>Creating a user\<close>

text \<open>
  Claim C1 fails as stated: a create with valid input stores the record and then hands it
  to the hub with a send on \<^verbatim>\<open>h.broadcast\<close>, and it writes its answer only after that
  send. When the 256 places of the channel are taken the send waits; here the record is in
  the store (\<^verbatim>\<open>getUser\<close> finds it) and the handler has not answered. In the same state
  the ticker case of the loop waits on the same channel, which only the loop empties.
\<close>

theorem createUser_waits_counterexample:
  "snd (createUser ascii_lower 7 8
         (Some \<lparr>inName = ''Alice'', inEmail = ''alice@example.com'', inAge = 28,
                 inCountry = []\<rparr>)
         store0
         (Some (NewHub\<lparr>broadcast := (make_chan 256)\<lparr>buf := replicate 256 (shutdownMsg 3)\<rparr>\<rparr>,
                \<lambda>c. newClient ''a'')))
     = Blocks
   \<and> getUser (Some 1)
       (fst (createUser ascii_lower 7 8
         (Some \<lparr>inName = ''Alice'', inEmail = ''alice@example.com'', inAge = 28,
                 inCountry = []\<rparr>)
         store0
         (Some (NewHub\<lparr>broadcast := (make_chan 256)\<lparr>buf := replicate 256 (shutdownMsg 3)\<rparr>\<rparr>,
                \<lambda>c. newClient ''a''))))
     = (StatusOK, UserBody \<lparr>ID = 1, Name = ''Alice'', Email = ''alice@example.com'',
          Age = 28, Country = [], Active = True, CreatedAt = 7, UpdatedAt = 7\<rparr>)
   \<and> act (Loop (Tick ''2025-10-21T19:32:00Z'' 9))
       ((NewHub\<lparr>broadcast := (make_chan 256)\<lparr>buf := replicate 256 (shutdownMsg 3)\<rparr>\<rparr>,
         \<lambda>c. newClient ''a''), Idle)
     = Blocks"
  by (simp add: run_defs createUser_def BroadcastMessage_def send_def NewHub_def
      make_chan_def idle_def)

text \<open>
  Claim C1, amended. For every input, \<^verbatim>\<open>createUser\<close> answers with status 400 and leaves
  the store and the hub alone when the name is empty, the address is empty, the
  lower-cased address does not match the pattern, or the age is below 0 or above 150.
  Otherwise it stores a record that carries the store's counter as identifier, the fields
  of the input, the active flag set and both timestamps equal to the clock reading of the
  call; the counter is one more afterwards, the record is in the table under its
  identifier and \<^verbatim>\<open>getUser\<close> on that identifier answers with the same record. It then
  hands the record to the hub: when no hub is set, or \<^verbatim>\<open>h.broadcast\<close> is open and has
  room, it answers 201 with the record (and the message is the last in \<^verbatim>\<open>h.broadcast\<close>);
  while the channel is full the answer waits. An answer, when there is one, is 201 with
  the record, and the next create that answers 201 has a strictly greater identifier.
\<close>

theorem createUser_spec:
  "(if inName inp = [] \<or> inEmail inp = [] \<or> \<not> MatchString emailRegex (L (inEmail inp))
        \<or> inAge inp < 0 \<or> inAge inp > 150
    then \<exists>e. createUser L now sent (Some inp) s hub
              = (s, Returns (respondError StatusBadRequest e, hub))
    else \<exists>user s'.
      fst (createUser L now sent (Some inp) s hub) = s'
      \<and> ID user = nextID s \<and> nextID s' = nextID s + 1
      \<and> Name user = inName inp \<and> Email user = inEmail inp \<and> Age user = inAge inp
      \<and> Country user = inCountry inp
      \<and> Active user \<and> CreatedAt user = now \<and> UpdatedAt user = now
      \<and> users s' = (users s)(nextID s \<mapsto> user)
      \<and> getUser (Some (ID user)) s' = respondJSON StatusOK (UserBody user)
      \<and> (hub = None \<longrightarrow>
            snd (createUser L now sent (Some inp) s hub)
            = Returns (respondJSON StatusCreated (UserBody user), None))
      \<and> (\<forall>h m. hub = Some (h, m) \<and> \<not> closed (broadcast h) \<and> \<not> full (broadcast h) \<longrightarrow>
            snd (createUser L now sent (Some inp) s hub)
            = Returns (respondJSON StatusCreated (UserBody user),
                Some (h\<lparr>broadcast := (broadcast h)
                          \<lparr>buf := buf (broadcast h) @ [user_created user sent]\<rparr>\<rparr>, m)))
      \<and> (\<forall>h m. hub = Some (h, m) \<and> \<not> closed (broadcast h) \<and> full (broadcast h) \<longrightarrow>
            snd (createUser L now sent (Some inp) s hub) = Blocks)
      \<and> (\<forall>r hub'. snd (createUser L now sent (Some inp) s hub) = Returns (r, hub')
            \<longrightarrow> r = respondJSON StatusCreated (UserBody user))
      \<and> (\<forall>L' now' sent' body' hub2 user' s'' hub3.
            createUser L' now' sent' body' s' hub2
              = (s'', Returns (respondJSON StatusCreated (UserBody user'), hub3))
            \<longrightarrow> ID user < ID user'))"
proof (cases "inName inp = [] \<or> inEmail inp = [] \<or> \<not> MatchString emailRegex (L (inEmail inp))
        \<or> inAge inp < 0 \<or> inAge inp > 150")
  case True
  then show ?thesis by (auto simp: createUser_def)
next
  case False
  let ?user = "\<lparr>ID = nextID s, Name = inName inp, Email = inEmail inp, Age = inAge inp,
      Country = inCountry inp, Active = True, CreatedAt = now, UpdatedAt = now\<rparr>"
  let ?s' = "s\<lparr>users := (users s)(nextID s \<mapsto> ?user), nextID := nextID s + 1\<rparr>"
  have st: "fst (createUser L now sent (Some inp) s hub) = ?s'"
    using False by (simp add: createUser_def Let_def split: option.splits outcome.splits)
  have get: "getUser (Some (ID ?user)) ?s' = respondJSON StatusOK (UserBody ?user)"
    by (simp add: getUser_def)
  have none: "hub = None \<longrightarrow> snd (createUser L now sent (Some inp) s hub)
            = Returns (respondJSON StatusCreated (UserBody ?user), None)"
    using False by (simp add: createUser_def Let_def)
  have room: "\<forall>h m. hub = Some (h, m) \<and> \<not> closed (broadcast h) \<and> \<not> full (broadcast h) \<longrightarrow>
            snd (createUser L now sent (Some inp) s hub)
            = Returns (respondJSON StatusCreated (UserBody ?user),
                Some (h\<lparr>broadcast := (broadcast h)
                          \<lparr>buf := buf (broadcast h) @ [user_created ?user sent]\<rparr>\<rparr>, m))"
    using False
    by (simp add: createUser_def Let_def BroadcastMessage_def send_def full_def)
  have wait: "\<forall>h m. hub = Some (h, m) \<and> \<not> closed (broadcast h) \<and> full (broadcast h) \<longrightarrow>
            snd (createUser L now sent (Some inp) s hub) = Blocks"
    using False
    by (simp add: createUser_def Let_def BroadcastMessage_def send_def full_def)
  have ans: "\<forall>r hub'. snd (createUser L now sent (Some inp) s hub) = Returns (r, hub')
            \<longrightarrow> r = respondJSON StatusCreated (UserBody ?user)"
    using False
    by (auto simp: createUser_def Let_def split: option.splits outcome.splits)
  have nxt: "\<forall>L' now' sent' body' hub2 user' s'' hub3.
            createUser L' now' sent' body' ?s' hub2
              = (s'', Returns (respondJSON StatusCreated (UserBody user'), hub3))
            \<longrightarrow> ID ?user < ID user'"
    by (auto simp: createUser_def respondError_def respondJSON_def Let_def
        split: option.splits outcome.splits if_splits)
  from False st get none room wait ans nxt show ?thesis
    by (simp only: if_False) (intro exI[of _ ?user] exI[of _ ?s'], simp)
qed

theorem createUser_spec_witness:
  "MatchString emailRegex (ascii_lower ''alice@example.com'')
   \<and> \<not> full (broadcast NewHub)
   \<and> snd (createUser ascii_lower 7 8
        (Some \<lparr>inName = ''Alice'', inEmail = ''alice@example.com'', inAge = 28, inCountry = []\<rparr>)
        store0 (Some (NewHub, \<lambda>c. newClient ''a'')))
     = Returns ((StatusCreated, UserBody \<lparr>ID = 1, Name = ''Alice'',
          Email = ''alice@example.com'', Age = 28, Country = [], Active = True,
          CreatedAt = 7, UpdatedAt = 7\<rparr>),
        Some (NewHub\<lparr>broadcast := (make_chan 256)
                \<lparr>buf := [user_created \<lparr>ID = 1, Name = ''Alice'',
                    Email = ''alice@example.com'', Age = 28, Country = [], Active = True,
                    CreatedAt = 7, UpdatedAt = 7\<rparr> 8]\<rparr>\<rparr>,
              \<lambda>c. newClient ''a''))"
  using createUser_spec
    [where inp = "\<lparr>inName = ''Alice'', inEmail = ''alice@example.com'', inAge = 28, inCountry = []\<rparr>"
       and L = ascii_lower and now = 7 and sent = 8 and s = store0
       and hub = "Some (NewHub, \<lambda>c. newClient ''a'')"]
  by (simp add: run_defs createUser_def BroadcastMessage_def send_def NewHub_def
      make_chan_def full_def)

subsection \<open>Updating a user\<close>

lemma updateUser_success:
  assumes "users s i = Some old"
    and "updateUser L now (Some i) (Some inp) s = ((st, UserBody new), s')"
  shows "st = StatusOK
    \<and> new = old\<lparr>Name := (if upName inp = [] then Name old else upName inp),
               Email := (if upEmail inp = [] then Email old else upEmail inp),
               Age := (case upAge inp of None \<Rightarrow> Age old | Some a \<Rightarrow> a),
               Country := (if upCountry inp = [] then Country old else upCountry inp),
               UpdatedAt := now\<rparr>
    \<and> s' = s\<lparr>users := (users s)(i \<mapsto> new)\<rparr>"
  using assms
  by (auto simp: updateUser_def respondError_def respondJSON_def Let_def
      split: option.splits if_splits)

text \<open>
  Claim C4 fails as stated: an update that reads the same clock value as the previous
  change of the record leaves \<^verbatim>\<open>updated_at\<close> equal to its old value. Here user 1 is
  updated twice and the clock does not advance between the two calls.
\<close>

theorem updateUser_same_instant_counterexample:
  "fst (run ascii_lower
      [(5, Update (Some 1)
             (Some \<lparr>upName = ''Ivan'', upEmail = [], upAge = None, upCountry = []\<rparr>)),
       (0, Update (Some 1)
             (Some \<lparr>upName = [], upEmail = [], upAge = Some 31, upCountry = []\<rparr>))]
      (StartServer 100))
   = [(StatusOK, UserBody \<lparr>ID = 1, Name = ''Ivan'', Email = ''ivan@example.com'', Age = 30,
         Country = ''Russia'', Active = True, CreatedAt = 100, UpdatedAt = 105\<rparr>),
      (StatusOK, UserBody \<lparr>ID = 1, Name = ''Ivan'', Email = ''ivan@example.com'', Age = 31,
         Country = ''Russia'', Active = True, CreatedAt = 100, UpdatedAt = 105\<rparr>)]"
  by (simp add: run_defs)

text \<open>
  Claim C4, amended. When an update of an existing user succeeds, every field that the
  request leaves out (empty string, or no age) keeps its value, every supplied field takes
  the supplied value, the identifier, the active flag and \<^verbatim>\<open>created_at\<close> are unchanged,
  no other record changes, and \<^verbatim>\<open>updated_at\<close> becomes the clock reading of the call:
  never earlier than its old value, and strictly later when the clock has advanced since
  the latest reading.
\<close>

theorem updateUser_frame:
  assumes "store_inv (clk, s)" and "users s i = Some old"
    and "serve L (d, Update (Some i) (Some inp)) (clk, s) = ((st, UserBody new), (clk', s'))"
  shows "Name new = (if upName inp = [] then Name old else upName inp)
    \<and> Email new = (if upEmail inp = [] then Email old else upEmail inp)
    \<and> Age new = (case upAge inp of None \<Rightarrow> Age old | Some a \<Rightarrow> a)
    \<and> Country new = (if upCountry inp = [] then Country old else upCountry inp)
    \<and> ID new = ID old \<and> Active new = Active old \<and> CreatedAt new = CreatedAt old
    \<and> UpdatedAt new = clk + int d
    \<and> UpdatedAt old \<le> UpdatedAt new
    \<and> (0 < d \<longrightarrow> UpdatedAt old < UpdatedAt new)
    \<and> users s' = (users s)(i \<mapsto> new) \<and> nextID s' = nextID s
    \<and> (\<forall>k. k \<noteq> i \<longrightarrow> users s' k = users s k)"
proof -
  from assms(3)
  have u: "updateUser L (clk + int d) (Some i) (Some inp) s = ((st, UserBody new), s')"
    by (auto simp: serve_Update prod_eq_iff)
  note r = updateUser_success[OF assms(2) u]
  from assms(1,2) have "UpdatedAt old \<le> clk" by (auto simp: store_inv_def)
  with r show ?thesis by (auto split: option.splits)
qed

theorem updateUser_frame_witness:
  "store_inv (StartServer 100)
   \<and> serve ascii_lower
       (5, Update (Some 4) (Some \<lparr>upName = [], upEmail = [], upAge = Some 29, upCountry = []\<rparr>))
       (StartServer 100)
     = ((StatusOK, UserBody \<lparr>ID = 4, Name = ''John Smith'', Email = ''john@example.com'',
           Age = 29, Country = ''USA'', Active = True, CreatedAt = 100, UpdatedAt = 105\<rparr>),
        105, snd (snd (serve ascii_lower
       (5, Update (Some 4) (Some \<lparr>upName = [], upEmail = [], upAge = Some 29, upCountry = []\<rparr>))
       (StartServer 100))))"
proof -
  have inv: "store_inv (100, initTestData 100 store0)"
    by (simp add: store_inv_def initTestData_def store0_def)
  have old: "users (initTestData 100 store0) 4 = Some \<lparr>ID = 4, Name = ''John Smith'',
      Email = ''john@example.com'', Age = 28, Country = ''USA'', Active = True,
      CreatedAt = 100, UpdatedAt = 100\<rparr>"
    by (simp add: initTestData_def store0_def)
  have run: "serve ascii_lower
       (5, Update (Some 4) (Some \<lparr>upName = [], upEmail = [], upAge = Some 29, upCountry = []\<rparr>))
       (100, initTestData 100 store0)
     = ((StatusOK, UserBody \<lparr>ID = 4, Name = ''John Smith'', Email = ''john@example.com'',
           Age = 29, Country = ''USA'', Active = True, CreatedAt = 100, UpdatedAt = 105\<rparr>),
        105, snd (snd (serve ascii_lower
       (5, Update (Some 4) (Some \<lparr>upName = [], upEmail = [], upAge = Some 29, upCountry = []\<rparr>))
       (100, initTestData 100 store0))))"
    by (simp add: run_defs)
  from updateUser_frame[OF inv old run] inv run show ?thesis
    by (simp add: StartServer_def)
qed

subsection \<open>The first create on a started server\<close>

text \<open>
  Claim C7 fails as stated: \<^verbatim>\<open>StartServer\<close> calls \<^verbatim>\<open>initTestData\<close>, which stores five
  users and sets the counter to 6, so the first create gets identifier 6; and a deactivate
  that reads the same clock value as the create leaves \<^verbatim>\<open>updated_at\<close> equal to
  \<^verbatim>\<open>created_at\<close>.
\<close>

theorem first_create_counterexample:
  "fst (run ascii_lower
      [(5, Create (Some \<lparr>inName = ''Alice'', inEmail = ''alice@example.com'', inAge = 28,
                          inCountry = []\<rparr>)),
       (0, Deactivate (Some 6))]
      (StartServer 100))
   = [(StatusCreated, UserBody \<lparr>ID = 6, Name = ''Alice'', Email = ''alice@example.com'',
         Age = 28, Country = [], Active = True, CreatedAt = 105, UpdatedAt = 105\<rparr>),
      (StatusOK, UserBody \<lparr>ID = 6, Name = ''Alice'', Email = ''alice@example.com'',
         Age = 28, Country = [], Active = False, CreatedAt = 105, UpdatedAt = 105\<rparr>)]"
  by (simp add: run_defs)

text \<open>
  Claim C7, amended. On a server that has just started, creating the user Alice with
  address alice@example.com and age 28 as the first create answers 201 with identifier 6,
  the active flag set and \<^verbatim>\<open>created_at\<close> equal to \<^verbatim>\<open>updated_at\<close>; deactivating user 6
  next answers 200 with the same record, the active flag cleared, \<^verbatim>\<open>created_at\<close>
  unchanged and \<^verbatim>\<open>updated_at\<close> moved by the time that has passed between the two calls:
  never before \<^verbatim>\<open>created_at\<close>, and strictly after it when the clock has advanced.
  Lower-casing is assumed to leave the lower-case ASCII address as it is.
\<close>

theorem first_create_then_deactivate:
  assumes "L ''alice@example.com'' = ''alice@example.com''"
  shows "\<exists>created deactivated w.
     run L
      [(d1, Create (Some \<lparr>inName = ''Alice'', inEmail = ''alice@example.com'', inAge = 28,
                           inCountry = []\<rparr>)),
       (d2, Deactivate (Some 6))]
      (StartServer t0)
     = ([(StatusCreated, UserBody created), (StatusOK, UserBody deactivated)], w)
     \<and> ID created = 6 \<and> Active created \<and> CreatedAt created = UpdatedAt created
     \<and> Name created = ''Alice'' \<and> Email created = ''alice@example.com'' \<and> Age created = 28
     \<and> deactivated = created\<lparr>Active := False, UpdatedAt := UpdatedAt created + int d2\<rparr>
     \<and> CreatedAt deactivated \<le> UpdatedAt deactivated
     \<and> (0 < d2 \<longrightarrow> CreatedAt deactivated < UpdatedAt deactivated)"
proof -
  have m: "MatchString emailRegex ''alice@example.com''"
    by (simp add: emailRegex_def many1_def many2_def lower_digit_def)
  show ?thesis using assms m
    by (simp add: StartServer_def initTestData_def store0_def serve_def createUser_store_def
       deactivateUser_def respondJSON_def Let_def)
qed

theorem first_create_then_deactivate_witness:
  "ascii_lower ''alice@example.com'' = ''alice@example.com''
   \<and> fst (run ascii_lower
      [(5, Create (Some \<lparr>inName = ''Alice'', inEmail = ''alice@example.com'', inAge = 28,
                          inCountry = []\<rparr>)),
       (2, Deactivate (Some 6))]
      (StartServer 100))
   = [(StatusCreated, UserBody \<lparr>ID = 6, Name = ''Alice'', Email = ''alice@example.com'',
         Age = 28, Country = [], Active = True, CreatedAt = 105, UpdatedAt = 105\<rparr>),
      (StatusOK, UserBody \<lparr>ID = 6, Name = ''Alice'', Email = ''alice@example.com'',
         Age = 28, Country = [], Active = False, CreatedAt = 105, UpdatedAt = 107\<rparr>)]"
proof -
  have h: "ascii_lower ''alice@example.com'' = ''alice@example.com''"
    by (simp add: ascii_lower_def ascii_lower_char_def)
  from first_create_then_deactivate[where L = ascii_lower and ?d1.0 = 5 and ?d2.0 = 2
      and ?t0.0 = 100] h
  show ?thesis
    by (simp add: run_defs)
qed

subsection \<open>The invariant of the store\<close>

lemma store_inv_later: "store_inv (t, s) \<Longrightarrow> t \<le> t' \<Longrightarrow> store_inv (t', s)"
  by (fastforce simp: store_inv_def)

lemma store_inv_insert:
  assumes "store_inv (t, s)" and "t \<le> now"
  shows "store_inv (now, s\<lparr>users := (users s)(nextID s \<mapsto>
            \<lparr>ID = nextID s, Name = n, Email = e, Age = a, Country = c, Active = True,
             CreatedAt = now, UpdatedAt = now\<rparr>), nextID := nextID s + 1\<rparr>)"
  using assms by (fastforce simp: store_inv_def)

lemma store_inv_touch:
  assumes "store_inv (t, s)" and "t \<le> now" and "users s i = Some old"
    and "ID new = ID old" and "CreatedAt new = CreatedAt old" and "UpdatedAt new = now"
  shows "store_inv (now, s\<lparr>users := (users s)(i \<mapsto> new)\<rparr>)"
  using assms by (fastforce simp: store_inv_def)

lemma store_inv_remove:
  assumes "store_inv (t, s)" and "t \<le> now"
  shows "store_inv (now, s\<lparr>users := (users s)(i := None)\<rparr>)"
  using assms by (fastforce simp: store_inv_def)

lemma createUser_inv:
  assumes "store_inv (t, s)" and "t \<le> now" and "createUser_store L now body s = (r, s')"
  shows "store_inv (now, s') \<and> nextID s \<le> nextID s'
     \<and> sorted_wrt (<) (assigned r) \<and> (\<forall>i \<in> set (assigned r). nextID s \<le> i \<and> i < nextID s')"
proof (cases "fst r = StatusCreated")
  case True
  with assms(3) obtain input where b: "body = Some input"
    and s': "s' = s\<lparr>users := (users s)(nextID s \<mapsto>
            \<lparr>ID = nextID s, Name = inName input, Email = inEmail input, Age = inAge input,
             Country = inCountry input, Active = True,
             CreatedAt = now, UpdatedAt = now\<rparr>), nextID := nextID s + 1\<rparr>"
    and r: "r = (StatusCreated, UserBody \<lparr>ID = nextID s, Name = inName input, Email = inEmail input, Age = inAge input,
             Country = inCountry input, Active = True,
             CreatedAt = now, UpdatedAt = now\<rparr>)"
    by (auto simp: createUser_store_def respondError_def respondJSON_def Let_def
        split: option.splits if_splits)
  from store_inv_insert[OF assms(1,2)] s' r show ?thesis by simp
next
  case False
  with assms(3) have "s' = s" and "assigned r = []"
    by (auto simp: createUser_store_def respondError_def respondJSON_def Let_def
        split: option.splits if_splits)
  with store_inv_later[OF assms(1,2)] show ?thesis by simp
qed

lemma updateUser_inv:
  assumes "store_inv (t, s)" and "t \<le> now" and "updateUser L now idv body s = (r, s')"
  shows "store_inv (now, s') \<and> nextID s \<le> nextID s'
     \<and> sorted_wrt (<) (assigned r) \<and> (\<forall>i \<in> set (assigned r). nextID s \<le> i \<and> i < nextID s')"
proof (cases "\<exists>e. snd r = ErrorBody e")
  case True
  then obtain st e where "fst (updateUser L now idv body s) = (st, ErrorBody e)"
    using assms(3) by (cases r) auto
  from updateUser_error_keeps[OF this] assms(3) have "s' = s" by simp
  moreover from True have "assigned r = []" by (cases r) auto
  ultimately show ?thesis using store_inv_later[OF assms(1,2)] by simp
next
  case False
  with assms(3) obtain i input old st new where idv: "idv = Some i" and b: "body = Some input"
    and old: "users s i = Some old" and r: "r = (st, UserBody new)"
    by (auto simp: updateUser_def respondError_def respondJSON_def Let_def
        split: option.splits if_splits)
  from updateUser_success[OF old assms(3)[unfolded idv b r]]
  have st: "st = StatusOK" and new: "ID new = ID old" "CreatedAt new = CreatedAt old" "UpdatedAt new = now"
    and s': "s' = s\<lparr>users := (users s)(i \<mapsto> new)\<rparr>"
    by auto
  from store_inv_touch[OF assms(1,2) old new] s' r st show ?thesis by simp
qed

lemma deleteUser_inv:
  assumes "store_inv (t, s)" and "t \<le> now" and "deleteUser idv s = (r, s')"
  shows "store_inv (now, s') \<and> nextID s \<le> nextID s'
     \<and> sorted_wrt (<) (assigned r) \<and> (\<forall>i \<in> set (assigned r). nextID s \<le> i \<and> i < nextID s')"
  using assms store_inv_later[OF assms(1,2)] store_inv_remove[OF assms(1,2)]
  by (auto simp: deleteUser_def respondError_def respondJSON_def split: option.splits)

lemma activateUser_inv:
  assumes "store_inv (t, s)" and "t \<le> now" and "activateUser now idv s = (r, s')"
  shows "store_inv (now, s') \<and> nextID s \<le> nextID s'
     \<and> sorted_wrt (<) (assigned r) \<and> (\<forall>i \<in> set (assigned r). nextID s \<le> i \<and> i < nextID s')"
  using assms store_inv_later[OF assms(1,2)]
  by (auto simp: activateUser_def respondError_def respondJSON_def Let_def
      split: option.splits intro!: store_inv_touch[OF assms(1,2)])

lemma deactivateUser_inv:
  assumes "store_inv (t, s)" and "t \<le> now" and "deactivateUser now idv s = (r, s')"
  shows "store_inv (now, s') \<and> nextID s \<le> nextID s'
     \<and> sorted_wrt (<) (assigned r) \<and> (\<forall>i \<in> set (assigned r). nextID s \<le> i \<and> i < nextID s')"
  using assms store_inv_later[OF assms(1,2)]
  by (auto simp: deactivateUser_def respondError_def respondJSON_def Let_def
      split: option.splits intro!: store_inv_touch[OF assms(1,2)])


lemma batch_create_fold_inv:
  assumes "store_inv (t, s)" and "sorted_wrt (<) (map ID created)"
    and "\<forall>u \<in> set created. n0 \<le> ID u \<and> ID u < nextID s" and "n0 \<le> nextID s"
    and "fold (batch_create_step L) (readings t es) (created, s) = (created', s')"
  shows "store_inv (t + int (sum_list (map fst es)), s') \<and> nextID s \<le> nextID s'
     \<and> sorted_wrt (<) (map ID created')
     \<and> (\<forall>u \<in> set created'. n0 \<le> ID u \<and> ID u < nextID s')"
  using assms
proof (induction es arbitrary: t s created)
  case Nil
  then show ?case by simp
next
  case (Cons e es)
  obtain d userReq where e: "e = (d, userReq)" by (cases e)
  obtain c1 s1 where step: "batch_create_step L (t + int d, userReq) (created, s) = (c1, s1)"
    by (cases "batch_create_step L (t + int d, userReq) (created, s)")
  have le: "t \<le> t + int d" by simp
  have mid: "store_inv (t + int d, s1) \<and> nextID s \<le> nextID s1
     \<and> sorted_wrt (<) (map ID c1) \<and> (\<forall>u \<in> set c1. n0 \<le> ID u \<and> ID u < nextID s1)"
  proof (cases "c1 = created")
    case True
    with step have "s1 = s"
      by (auto simp: batch_create_step_def Let_def split: if_splits)
    with True Cons.prems store_inv_later[OF Cons.prems(1) le] show ?thesis by simp
  next
    case False
    with step have c1: "c1 = created @ [\<lparr>ID = nextID s, Name = inName userReq,
          Email = inEmail userReq, Age = inAge userReq, Country = inCountry userReq,
          Active = True, CreatedAt = t + int d, UpdatedAt = t + int d\<rparr>]"
      and s1: "s1 = s\<lparr>users := (users s)(nextID s \<mapsto> \<lparr>ID = nextID s, Name = inName userReq,
          Email = inEmail userReq, Age = inAge userReq, Country = inCountry userReq,
          Active = True, CreatedAt = t + int d, UpdatedAt = t + int d\<rparr>),
          nextID := nextID s + 1\<rparr>"
      by (auto simp: batch_create_step_def Let_def split: if_splits)
    from store_inv_insert[OF Cons.prems(1) le] s1 have "store_inv (t + int d, s1)" by simp
    moreover from Cons.prems(2,3) c1 have "sorted_wrt (<) (map ID c1)"
      by (auto simp: sorted_wrt_append)
    moreover from Cons.prems(3,4) c1 s1
    have "\<forall>u \<in> set c1. n0 \<le> ID u \<and> ID u < nextID s1" by auto
    ultimately show ?thesis using s1 by simp
  qed
  from Cons.prems(5) e step
  have rest: "fold (batch_create_step L) (readings (t + int d) es) (c1, s1) = (created', s')"
    by simp
  from mid Cons.prems(4) have n0: "n0 \<le> nextID s1" by simp
  from Cons.IH[OF _ _ _ n0 rest] mid e show ?case
    by (simp add: add.assoc)
qed

lemma batchCreateUsers_inv:
  assumes "store_inv (t, s)" and "t \<le> now"
    and "batchCreateUsers L (map_option (readings now) body) s = (r, s')"
  shows "store_inv (now + int (sum_list (map fst (case_option [] id body))), s')
     \<and> nextID s \<le> nextID s'
     \<and> sorted_wrt (<) (assigned r) \<and> (\<forall>i \<in> set (assigned r). nextID s \<le> i \<and> i < nextID s')"
proof (cases "\<exists>e. snd r = ErrorBody e")
  case True
  with assms(3) have "s' = s" and "assigned r = []"
    by (auto simp: batchCreateUsers_def respondError_def respondJSON_def
        split: option.splits if_splits prod.splits)
  moreover have "store_inv (now + int (sum_list (map fst (case_option [] id body))), s)"
    by (rule store_inv_later[OF assms(1)]) (use assms(2) in simp)
  ultimately show ?thesis by simp
next
  case False
  with assms(3) obtain es created where b: "body = Some es"
    and f: "fold (batch_create_step L) (readings now es) ([], s) = (created, s')"
    and r: "r = (StatusCreated, CreatedBody created (length created))"
    by (auto simp: batchCreateUsers_def respondError_def respondJSON_def
        split: option.splits if_splits prod.splits)
  have "store_inv (now, s)" by (rule store_inv_later[OF assms(1,2)])
  from batch_create_fold_inv[OF this _ _ _ f, of "nextID s"] b r show ?thesis
    by auto
qed

lemma batch_delete_fold_inv:
  assumes "store_inv (t, s)" and "fold batch_delete_step ids (deleted, s) = (deleted', s')"
  shows "store_inv (t, s') \<and> nextID s' = nextID s"
  using assms
proof (induction ids arbitrary: s deleted)
  case Nil
  then show ?case by simp
next
  case (Cons i ids)
  obtain d1 s1 where step: "batch_delete_step i (deleted, s) = (d1, s1)"
    by (cases "batch_delete_step i (deleted, s)")
  then have "s1 = s \<or> s1 = s\<lparr>users := (users s)(i := None)\<rparr>"
    by (auto simp: batch_delete_step_def split: option.splits)
  with store_inv_remove[OF Cons.prems(1) order_refl, of i] Cons.prems(1)
  have "store_inv (t, s1)" and "nextID s1 = nextID s" by auto
  with Cons.IH[of s1 d1] Cons.prems(2) step show ?case by simp
qed

lemma batchDeleteUsers_inv:
  assumes "store_inv (t, s)" and "t \<le> now" and "batchDeleteUsers body s = (r, s')"
  shows "store_inv (now, s') \<and> nextID s \<le> nextID s'
     \<and> sorted_wrt (<) (assigned r) \<and> (\<forall>i \<in> set (assigned r). nextID s \<le> i \<and> i < nextID s')"
proof (cases "\<exists>e. snd r = ErrorBody e")
  case True
  with assms(3) have "s' = s" and "assigned r = []"
    by (auto simp: batchDeleteUsers_def respondError_def respondJSON_def
        split: option.splits if_splits prod.splits)
  with store_inv_later[OF assms(1,2)] show ?thesis by simp
next
  case False
  with assms(3) obtain ids deleted where
    f: "fold batch_delete_step ids ([], s) = (deleted, s')"
    and r: "r = (StatusOK, DeletedBody deleted (length deleted))"
    by (auto simp: batchDeleteUsers_def respondError_def respondJSON_def
        split: option.splits if_splits prod.splits)
  have "store_inv (now, s)" by (rule store_inv_later[OF assms(1,2)])
  from batch_delete_fold_inv[OF this f] r show ?thesis by simp
qed

lemma serve_inv:
  assumes "store_inv w" and "serve L dreq w = (r, w')"
  shows "store_inv w' \<and> nextID (snd w) \<le> nextID (snd w')
     \<and> sorted_wrt (<) (assigned r)
     \<and> (\<forall>i \<in> set (assigned r). nextID (snd w) \<le> i \<and> i < nextID (snd w'))"
proof -
  obtain d req where dreq: "dreq = (d, req)" by (cases dreq)
  obtain clk s where w: "w = (clk, s)" by (cases w)
  have le: "clk \<le> clk + int d" by simp
  note inv = assms(1)[unfolded w]
  show ?thesis
  proof (cases req)
    case (Create body)
    with assms(2) dreq w createUser_inv[OF inv le, of L body "fst (createUser_store L (clk + int d) body s)" "snd (createUser_store L (clk + int d) body s)"]
    show ?thesis by (auto simp: serve_Create)
  next
    case (Update idv body)
    with assms(2) dreq w updateUser_inv[OF inv le, of L idv body "fst (updateUser L (clk + int d) idv body s)" "snd (updateUser L (clk + int d) idv body s)"]
    show ?thesis by (auto simp: serve_Update)
  next
    case (Delete idv)
    with assms(2) dreq w deleteUser_inv[OF inv le, of idv "fst (deleteUser idv s)" "snd (deleteUser idv s)"]
    show ?thesis by (auto simp: serve_Delete)
  next
    case (Activate idv)
    with assms(2) dreq w activateUser_inv[OF inv le, of idv "fst (activateUser (clk + int d) idv s)" "snd (activateUser (clk + int d) idv s)"]
    show ?thesis by (auto simp: serve_Activate)
  next
    case (Deactivate idv)
    with assms(2) dreq w deactivateUser_inv[OF inv le, of idv "fst (deactivateUser (clk + int d) idv s)" "snd (deactivateUser (clk + int d) idv s)"]
    show ?thesis by (auto simp: serve_Deactivate)
  next
    case (BatchCreate body)
    with assms(2) dreq w batchCreateUsers_inv[OF inv le, of L body "fst (batchCreateUsers L (map_option (readings (clk + int d)) body) s)" "snd (batchCreateUsers L (map_option (readings (clk + int d)) body) s)"]
    show ?thesis by (auto simp: serve_BatchCreate)
  next
    case (BatchDelete body)
    with assms(2) dreq w batchDeleteUsers_inv[OF inv le, of body "fst (batchDeleteUsers body s)" "snd (batchDeleteUsers body s)"]
    show ?thesis by (auto simp: serve_BatchDelete)
  qed
qed

lemma run_inv:
  assumes "store_inv w" and "run L reqs w = (rs, w')"
  shows "store_inv w' \<and> nextID (snd w) \<le> nextID (snd w')
     \<and> sorted_wrt (<) (concat (map assigned rs))
     \<and> (\<forall>i \<in> set (concat (map assigned rs)). nextID (snd w) \<le> i \<and> i < nextID (snd w'))"
  using assms
proof (induction reqs arbitrary: w rs)
  case Nil
  then show ?case by simp
next
  case (Cons dreq reqs)
  obtain r w1 where s1: "serve L dreq w = (r, w1)" by (cases "serve L dreq w")
  obtain rs1 where r1: "run L reqs w1 = (rs1, w')" and rs: "rs = r # rs1"
    using Cons.prems(2) s1 by (auto split: prod.splits)
  note a = serve_inv[OF Cons.prems(1) s1]
  from a have inv1: "store_inv w1" by simp
  note b = Cons.IH[OF inv1 r1]
  from a b rs show ?case
    by (fastforce simp: sorted_wrt_append)
qed


text \<open>
  Claim C8. The store of a server that has just started satisfies the invariant, and
  every run of requests (create, update, delete, activate, deactivate, and the two batch
  requests) from a state that satisfies it ends in a state that satisfies it: records are
  stored under their own identifier, so two entries of the table never carry the same
  identifier, and \<^verbatim>\<open>created_at\<close> is never after \<^verbatim>\<open>updated_at\<close>. The identifiers that
  the run assigns, in the order of assignment, are strictly increasing, and each of them
  is greater than every identifier in the table at the start of the run and not below the
  counter at the start: an identifier is not assigned twice, also after a delete.
\<close>

theorem store_invariant:
  "store_inv (StartServer t0)
   \<and> (store_inv w \<longrightarrow>
       (\<forall>rs w'. run L reqs w = (rs, w') \<longrightarrow>
          store_inv w'
          \<and> (\<forall>k k' u u'. users (snd w') k = Some u \<and> users (snd w') k' = Some u' \<and> k \<noteq> k'
                \<longrightarrow> ID u \<noteq> ID u')
          \<and> (\<forall>k u. users (snd w') k = Some u \<longrightarrow> CreatedAt u \<le> UpdatedAt u)
          \<and> sorted_wrt (<) (concat (map assigned rs))
          \<and> (\<forall>i \<in> set (concat (map assigned rs)).
                (\<forall>k \<in> dom (users (snd w)). k < i) \<and> nextID (snd w) \<le> i
                \<and> i < nextID (snd w'))))"
proof -
  have start: "store_inv (StartServer t0)"
    by (simp add: store_inv_def StartServer_def initTestData_def store0_def)
  have main: "store_inv w'
          \<and> (\<forall>k k' u u'. users (snd w') k = Some u \<and> users (snd w') k' = Some u' \<and> k \<noteq> k'
                \<longrightarrow> ID u \<noteq> ID u')
          \<and> (\<forall>k u. users (snd w') k = Some u \<longrightarrow> CreatedAt u \<le> UpdatedAt u)
          \<and> sorted_wrt (<) (concat (map assigned rs))
          \<and> (\<forall>i \<in> set (concat (map assigned rs)).
                (\<forall>k \<in> dom (users (snd w)). k < i) \<and> nextID (snd w) \<le> i
                \<and> i < nextID (snd w'))"
    if inv: "store_inv w" and r: "run L reqs w = (rs, w')" for rs w'
  proof -
    note a = run_inv[OF inv r]
    from a have 1: "store_inv w'" by simp
    from a have 2: "\<forall>k k' u u'. users (snd w') k = Some u \<and> users (snd w') k' = Some u'
        \<and> k \<noteq> k' \<longrightarrow> ID u \<noteq> ID u'"
      by (fastforce simp: store_inv_def)
    from a have 3: "\<forall>k u. users (snd w') k = Some u \<longrightarrow> CreatedAt u \<le> UpdatedAt u"
      by (fastforce simp: store_inv_def)
    from a have 4: "sorted_wrt (<) (concat (map assigned rs))" by simp
    from inv have "\<forall>k \<in> dom (users (snd w)). k < nextID (snd w)"
      by (fastforce simp: store_inv_def)
    with a have 5: "\<forall>i \<in> set (concat (map assigned rs)).
                (\<forall>k \<in> dom (users (snd w)). k < i) \<and> nextID (snd w) \<le> i
                \<and> i < nextID (snd w')"
      by (meson order_less_le_trans)
    from 1 2 3 4 5 show ?thesis by blast
  qed
  from start main show ?thesis by blast
qed

theorem store_invariant_witness:
  "store_inv (StartServer 100)
   \<and> concat (map assigned (fst (run ascii_lower
       [(5, Create (Some \<lparr>inName = ''Alice'', inEmail = ''alice@example.com'', inAge = 28,
                           inCountry = []\<rparr>)),
        (1, Delete (Some 6)),
        (0, Create (Some \<lparr>inName = ''Bob'', inEmail = ''bob@example.org'', inAge = 0,
                           inCountry = ''USA''\<rparr>))]
       (StartServer 100)))) = [6, 7]
   \<and> store_inv (snd (run ascii_lower
       [(5, Create (Some \<lparr>inName = ''Alice'', inEmail = ''alice@example.com'', inAge = 28,
                           inCountry = []\<rparr>)),
        (1, Delete (Some 6)),
        (0, Create (Some \<lparr>inName = ''Bob'', inEmail = ''bob@example.org'', inAge = 0,
                           inCountry = ''USA''\<rparr>))]
       (StartServer 100)))"
proof -
  let ?reqs = "[(5, Create (Some \<lparr>inName = ''Alice'', inEmail = ''alice@example.com'', inAge = 28,
                           inCountry = []\<rparr>)),
        (1, Delete (Some 6)),
        (0, Create (Some \<lparr>inName = ''Bob'', inEmail = ''bob@example.org'', inAge = 0,
                           inCountry = ''USA''\<rparr>))]"
  have ids: "concat (map assigned (fst (run ascii_lower ?reqs (StartServer 100)))) = [6, 7]"
    by (simp add: run_defs)
  from store_invariant[of 100 "StartServer 100" ascii_lower ?reqs] ids
  show ?thesis by (simp add: prod_eq_iff)
qed

subsection \<open>Searching\<close>

lemma set_range_users: "set keys = dom (users s) \<Longrightarrow> set (range_users keys s) = ran (users s)"
proof
  show "set (range_users keys s) \<subseteq> ran (users s)"
    by (auto simp: range_users_def List.map_filter_def ran_def)
  show "ran (users s) \<subseteq> set (range_users keys s)" if "set keys = dom (users s)"
  proof
    fix u assume "u \<in> ran (users s)"
    then obtain k where k: "users s k = Some u" by (auto simp: ran_def)
    with that have "k \<in> set keys" by auto
    with k show "u \<in> set (range_users keys s)"
      by (force simp: range_users_def List.map_filter_def image_iff)
  qed
qed

text \<open>
  Claim C10. \<^verbatim>\<open>ParseBool\<close> rejects "maybe". The answer of \<^verbatim>\<open>searchUsers\<close> is always
  status 200 with the users that pass all three filters together: the lower-cased query
  is empty or occurs in the lower-cased name or address, the country is empty or equal to
  the user's, and the active parameter is empty or the user's flag equals the parsed
  value, where a value that does not parse counts as false. So with a non-empty active
  parameter that does not parse, the results are exactly the inactive users that pass the
  other two filters; the parameter is not ignored and no error is reported.
\<close>

theorem searchUsers_active_filter:
  "ParseBool ''maybe'' = None
   \<and> searchUsers L keys q country activeStr s =
       respondJSON StatusOK
         (SearchBody
           (filter (\<lambda>u. (L q = [] \<or> Contains (L (Name u)) (L q) \<or> Contains (L (Email u)) (L q))
                        \<and> (country = [] \<or> Country u = country)
                        \<and> (activeStr = [] \<or> Active u = (ParseBool activeStr = Some True)))
              (range_users keys s))
           (length (filter (\<lambda>u. (L q = [] \<or> Contains (L (Name u)) (L q)
                                   \<or> Contains (L (Email u)) (L q))
                        \<and> (country = [] \<or> Country u = country)
                        \<and> (activeStr = [] \<or> Active u = (ParseBool activeStr = Some True)))
              (range_users keys s))))
   \<and> (activeStr \<noteq> [] \<and> ParseBool activeStr = None \<and> set keys = dom (users s) \<longrightarrow>
        (\<exists>results. searchUsers L keys q country activeStr s
             = respondJSON StatusOK (SearchBody results (length results))
           \<and> set results = {u \<in> ran (users s). \<not> Active u
                 \<and> (L q = [] \<or> Contains (L (Name u)) (L q) \<or> Contains (L (Email u)) (L q))
                 \<and> (country = [] \<or> Country u = country)}))"
proof -
  have eq: "search_keeps L (L q) country activeStr =
      (\<lambda>u. (L q = [] \<or> Contains (L (Name u)) (L q) \<or> Contains (L (Email u)) (L q))
                        \<and> (country = [] \<or> Country u = country)
                        \<and> (activeStr = [] \<or> Active u = (ParseBool activeStr = Some True)))"
    by (rule ext) (auto simp: search_keeps_def split: option.splits)
  have 1: "ParseBool ''maybe'' = None" by (simp add: ParseBool_def)
  have 2: "searchUsers L keys q country activeStr s =
       respondJSON StatusOK
         (SearchBody
           (filter (\<lambda>u. (L q = [] \<or> Contains (L (Name u)) (L q) \<or> Contains (L (Email u)) (L q))
                        \<and> (country = [] \<or> Country u = country)
                        \<and> (activeStr = [] \<or> Active u = (ParseBool activeStr = Some True)))
              (range_users keys s))
           (length (filter (\<lambda>u. (L q = [] \<or> Contains (L (Name u)) (L q)
                                   \<or> Contains (L (Email u)) (L q))
                        \<and> (country = [] \<or> Country u = country)
                        \<and> (activeStr = [] \<or> Active u = (ParseBool activeStr = Some True)))
              (range_users keys s))))"
    by (simp add: searchUsers_def Let_def eq)
  show ?thesis
    apply (intro conjI impI)
      apply (rule 1)
     apply (rule 2)
    apply (subst 2)
    apply (rule exI, rule conjI, rule refl)
    apply (auto simp: set_range_users)
    done
qed

theorem searchUsers_active_filter_witness:
  "searchUsers ascii_lower [5, 4, 3, 2, 1] [] [] ''maybe'' (initTestData 100 store0)
     = searchUsers ascii_lower [5, 4, 3, 2, 1] [] [] ''false'' (initTestData 100 store0)
   \<and> map ID (case snd (searchUsers ascii_lower [5, 4, 3, 2, 1] [] [] ''maybe''
                          (initTestData 100 store0)) of SearchBody rs n \<Rightarrow> rs | _ \<Rightarrow> []) = [3]
   \<and> set [5, 4, 3, 2, 1] = dom (users (initTestData 100 store0))"
  using searchUsers_active_filter[of ascii_lower "[5, 4, 3, 2, 1]" "[]" "[]" "''maybe''"
      "initTestData 100 store0"]
  by (auto simp: searchUsers_def search_keeps_def range_users_def List.map_filter_def
      ParseBool_def initTestData_def store0_def respondJSON_def ascii_lower_def dom_def)

subsection \<open>Listing with pages\<close>

lemma length_exchange: "length (exchange out i j xs) = length xs"
  by (simp add: exchange_def)

lemma length_fold_exchange: "length (fold (exchange out i) js ys) = length ys"
  by (induction js arbitrary: ys) (simp_all add: length_exchange)

lemma length_fold_rows:
  "length (fold (\<lambda>i ys. fold (exchange out i) [Suc i..<n] ys) rows ys) = length ys"
  by (induction rows arbitrary: ys) (simp_all add: length_fold_exchange)

lemma length_exchange_sort: "length (exchange_sort out xs) = length xs"
  by (simp add: exchange_sort_def length_fold_rows)

lemma length_sort_users: "length (sort_users sortBy ord xs) = length xs"
  by (simp add: sort_users_def length_exchange_sort)

lemma length_range_users:
  assumes "distinct keys" and "set keys = dom (users s)"
  shows "length (range_users keys s) = card (dom (users s))"
proof -
  from assms(2) have "filter (\<lambda>k. users s k \<noteq> None) keys = keys"
    by (auto simp: filter_id_conv)
  then have "length (range_users keys s) = length keys"
    by (simp add: range_users_def List.map_filter_def)
  also from assms have "\<dots> = card (dom (users s))"
    by (metis distinct_card)
  finally show ?thesis .
qed

lemma wrap64_id: "- (2 ^ 63) \<le> x \<Longrightarrow> x < 2 ^ 63 \<Longrightarrow> wrap64 x = x"
  by (simp add: wrap64_def)

lemma quot_nonneg: "0 \<le> a \<Longrightarrow> 0 < b \<Longrightarrow> quot a b = a div b"
  by (cases "a = 0") (simp_all add: quot_def)

lemma take_drop_window:
  "take n (drop k xs) = map (\<lambda>j. xs ! j) [k ..< min (length xs) (k + n)]"
  by (rule nth_equalityI) auto

text \<open>
  As long as the product \<open>(page - 1) * perPage\<close> fits into 64 bits, \<^verbatim>\<open>getUsers\<close> answers
  with the number of records in the table as total and with the window of the collected
  list from \<open>(page - 1) * perPage\<close> up to, and without, the smaller of the total and
  \<open>page * perPage\<close>; the window is empty when its start is at or past the total.
\<close>

lemma getUsers_window:
  assumes keys: "distinct keys" "set keys = dom (users s)"
    and page: "page_of pageQ = page" and perPage: "perPage_of perPageQ = perPage"
    and small: "(page - 1) * perPage < 2 ^ 63" "int (length keys) + 100 < 2 ^ 63"
    and allUsers: "allUsers = sort_users sortBy ord (range_users keys s)"
    and tot: "tot = int (card (dom (users s)))"
  shows "getUsers keys sortBy ord pageQ perPageQ s =
     Returns (respondJSON StatusOK (PageBody
       \<lparr>Data = map (\<lambda>j. allUsers ! j)
                [nat ((page - 1) * perPage) ..< nat (min tot (page * perPage))],
        Page = page, PerPage = perPage, Total = tot,
        TotalPages = (tot + perPage - 1) div perPage\<rparr>))"
proof -
  have p1: "1 \<le> page" using page by (auto simp: page_of_def split: option.splits if_splits)
  have pp: "1 \<le> perPage" "perPage \<le> 100"
    using perPage by (auto simp: perPage_of_def split: option.splits if_splits)
  let ?start = "(page - 1) * perPage"
  have len: "int (length allUsers) = tot"
    by (simp add: tot allUsers length_sort_users length_range_users[OF keys])
  have lenk: "tot = int (length keys)"
    using keys tot by (metis distinct_card)
  have start0: "0 \<le> ?start" using p1 pp by simp
  have ws: "wrap64 ?start = ?start"
    by (rule wrap64_id) (use start0 small in auto)
  have "wrap64 (tot + perPage - 1) = tot + perPage - 1"
    by (rule wrap64_id) (use pp lenk small in auto)
  then have tp: "quot (wrap64 (tot + perPage - 1)) perPage = (tot + perPage - 1) div perPage"
    using pp lenk by (simp add: quot_nonneg)
  show ?thesis
  proof (cases "?start \<ge> tot")
    case True
    then have "nat ?start \<ge> nat (min tot (page * perPage))" by auto
    with True show ?thesis
      by (simp add: getUsers_def Let_def page perPage allUsers[symmetric] ws len tp)
  next
    case False
    then have lt: "?start < tot" by simp
    have we: "wrap64 (?start + perPage) = ?start + perPage"
      by (rule wrap64_id) (use start0 pp lt lenk small in auto)
    have pe: "page * perPage = ?start + perPage" by (simp add: algebra_simps)
    let ?e = "if ?start + perPage > tot then tot else ?start + perPage"
    have e: "?e = min tot (page * perPage)" by (simp add: pe min_def)
    have sl: "slice allUsers ?start ?e
        = Returns (take (nat (?e - ?start)) (drop (nat ?start) allUsers))"
      using start0 lt pp len by (auto simp: slice_def)
    have "take (nat (?e - ?start)) (drop (nat ?start) allUsers)
        = map (\<lambda>j. allUsers ! j)
            [nat ?start ..< min (length allUsers) (nat ?start + nat (?e - ?start))]"
      by (rule take_drop_window)
    also have "min (length allUsers) (nat ?start + nat (?e - ?start)) = nat ?e"
      using start0 lt pp len by auto
    finally have w: "take (nat (?e - ?start)) (drop (nat ?start) allUsers)
        = map (\<lambda>j. allUsers ! j) [nat ?start ..< nat ?e]" .
    from False show ?thesis
      unfolding getUsers_def Let_def page perPage allUsers[symmetric] ws we len tp
      using sl w e by simp
  qed
qed

lemma getUsers_window_example:
  "getUsers [1, 2, 3, 4, 5] ''age'' [] (Some 2) (Some 2) (initTestData 100 store0)
     = Returns (respondJSON StatusOK (PageBody
         \<lparr>Data = map (\<lambda>j. sort_users ''age'' [] (range_users [1, 2, 3, 4, 5]
                    (initTestData 100 store0)) ! j) [2 ..< 4],
          Page = 2, PerPage = 2, Total = 5, TotalPages = 3\<rparr>))"
proof -
  have d: "dom (users (initTestData 100 store0)) = {1, 2, 3, 4, 5}"
    by (auto simp: initTestData_def store0_def dom_def)
  have c: "int (card (dom (users (initTestData 100 store0)))) = 5"
    by (simp add: d)
  have "getUsers [1, 2, 3, 4, 5] ''age'' [] (Some 2) (Some 2) (initTestData 100 store0)
     = Returns (respondJSON StatusOK (PageBody
         \<lparr>Data = map (\<lambda>j. sort_users ''age'' [] (range_users [1, 2, 3, 4, 5]
                    (initTestData 100 store0)) ! j) [nat ((2 - 1) * 2) ..< nat (min 5 (2 * 2))],
          Page = 2, PerPage = 2, Total = 5, TotalPages = (5 + 2 - 1) div 2\<rparr>))"
    by (rule getUsers_window) (simp_all add: d c page_of_def perPage_of_def)
  then show ?thesis by simp
qed

text \<open>
  Claim C5 is not met by the code when \<open>(page - 1) * perPage\<close> leaves the range of a
  64-bit integer. With \<^verbatim>\<open>page=92233720368547760\<close> and \<^verbatim>\<open>per_page=100\<close> the product wraps
  to a negative start, the test \<open>start \<ge> total\<close> fails and the slice expression panics.
  With \<^verbatim>\<open>page=288230376151711745\<close> and \<^verbatim>\<open>per_page=64\<close> the product wraps to 0 and the
  answer holds all five users, although the start of the window is far past the total.
\<close>

theorem getUsers_overflow:
  "getUsers [1, 2, 3, 4, 5] [] [] (Some 92233720368547760) (Some 100) (initTestData 100 store0)
     = Panics
   \<and> getUsers [1, 2, 3, 4, 5] [] [] (Some 288230376151711745) (Some 64)
       (initTestData 100 store0)
     = Returns (respondJSON StatusOK (PageBody
         \<lparr>Data = range_users [1, 2, 3, 4, 5] (initTestData 100 store0),
          Page = 288230376151711745, PerPage = 64, Total = 5, TotalPages = 1\<rparr>))
   \<and> length (range_users [1, 2, 3, 4, 5] (initTestData 100 store0)) = 5"
  by (simp add: getUsers_def page_of_def perPage_of_def sort_users_def range_users_def
      List.map_filter_def initTestData_def store0_def wrap64_def quot_def slice_def Let_def
      respondJSON_def)


section \<open>Properties of the hub\<close>

lemma set_send_apply:
  "set_send c ch m x = (if x = c then (m c)\<lparr>Send := ch\<rparr> else m x)"
  by (simp add: set_send_def)

lemma clients_map_delete: "clients (map_delete c h) = removeAll c (clients h)"
  by (simp add: map_delete_def)

lemma broadcast_map_delete: "broadcast (map_delete c h) = broadcast h"
  by (simp add: map_delete_def)

lemma broadcast_loop_spec:
  assumes "distinct cs" and "\<forall>c \<in> set cs. \<not> closed (Send (m c))"
  shows "\<exists>h' m'. broadcast_loop msg cs (h, m) = Returns (h', m')
     \<and> clients h' = filter (\<lambda>c. c \<notin> set cs \<or> \<not> full (Send (m c))) (clients h)
     \<and> broadcast h' = broadcast h
     \<and> (\<forall>c. m' c =
          (if c \<in> set cs then
             (if full (Send (m c)) then (m c)\<lparr>Send := (Send (m c))\<lparr>closed := True\<rparr>\<rparr>
              else (m c)\<lparr>Send := (Send (m c))\<lparr>buf := buf (Send (m c)) @ [msg]\<rparr>\<rparr>)
           else m c))"
  using assms
proof (induction cs arbitrary: h m)
  case Nil
  then show ?case by simp
next
  case (Cons c cs)
  from Cons.prems have d: "distinct cs" and nc: "c \<notin> set cs"
    and open_c: "\<not> closed (Send (m c))" by auto
  show ?case
  proof (cases "full (Send (m c))")
    case True
    let ?h1 = "map_delete c h"
    let ?m1 = "set_send c ((Send (m c))\<lparr>closed := True\<rparr>) m"
    have step: "broadcast_loop msg (c # cs) (h, m) = broadcast_loop msg cs (?h1, ?m1)"
      using True open_c by (simp add: try_send_def close_def full_def)
    have op: "\<forall>x \<in> set cs. \<not> closed (Send (?m1 x))"
      using Cons.prems nc by (auto simp: set_send_apply)
    from Cons.IH[OF d op, of ?h1] obtain h' m' where
      r: "broadcast_loop msg cs (?h1, ?m1) = Returns (h', m')"
      and cl: "clients h' = filter (\<lambda>x. x \<notin> set cs \<or> \<not> full (Send (?m1 x))) (clients ?h1)"
      and br: "broadcast h' = broadcast ?h1"
      and mm: "\<forall>x. m' x =
          (if x \<in> set cs then
             (if full (Send (?m1 x)) then (?m1 x)\<lparr>Send := (Send (?m1 x))\<lparr>closed := True\<rparr>\<rparr>
              else (?m1 x)\<lparr>Send := (Send (?m1 x))\<lparr>buf := buf (Send (?m1 x)) @ [msg]\<rparr>\<rparr>)
           else ?m1 x)"
      by blast
    have "clients h' = filter (\<lambda>x. x \<notin> set (c # cs) \<or> \<not> full (Send (m x))) (clients h)"
      unfolding cl clients_map_delete removeAll_filter_not_eq filter_filter
      using True nc by (intro filter_cong) (auto simp: set_send_apply)
    moreover have "\<forall>x. m' x =
          (if x \<in> set (c # cs) then
             (if full (Send (m x)) then (m x)\<lparr>Send := (Send (m x))\<lparr>closed := True\<rparr>\<rparr>
              else (m x)\<lparr>Send := (Send (m x))\<lparr>buf := buf (Send (m x)) @ [msg]\<rparr>\<rparr>)
           else m x)"
      using mm True nc by (auto simp: set_send_apply)
    ultimately show ?thesis using step r br by (simp add: broadcast_map_delete)
  next
    case False
    let ?m1 = "set_send c ((Send (m c))\<lparr>buf := buf (Send (m c)) @ [msg]\<rparr>) m"
    have step: "broadcast_loop msg (c # cs) (h, m) = broadcast_loop msg cs (h, ?m1)"
      using False open_c by (simp add: try_send_def full_def)
    have op: "\<forall>x \<in> set cs. \<not> closed (Send (?m1 x))"
      using Cons.prems nc by (auto simp: set_send_apply)
    from Cons.IH[OF d op, of h] obtain h' m' where
      r: "broadcast_loop msg cs (h, ?m1) = Returns (h', m')"
      and cl: "clients h' = filter (\<lambda>x. x \<notin> set cs \<or> \<not> full (Send (?m1 x))) (clients h)"
      and br: "broadcast h' = broadcast h"
      and mm: "\<forall>x. m' x =
          (if x \<in> set cs then
             (if full (Send (?m1 x)) then (?m1 x)\<lparr>Send := (Send (?m1 x))\<lparr>closed := True\<rparr>\<rparr>
              else (?m1 x)\<lparr>Send := (Send (?m1 x))\<lparr>buf := buf (Send (?m1 x)) @ [msg]\<rparr>\<rparr>)
           else ?m1 x)"
      by blast
    have "clients h' = filter (\<lambda>x. x \<notin> set (c # cs) \<or> \<not> full (Send (m x))) (clients h)"
      unfolding cl using False nc by (intro filter_cong) (auto simp: set_send_apply)
    moreover have "\<forall>x. m' x =
          (if x \<in> set (c # cs) then
             (if full (Send (m x)) then (m x)\<lparr>Send := (Send (m x))\<lparr>closed := True\<rparr>\<rparr>
              else (m x)\<lparr>Send := (Send (m x))\<lparr>buf := buf (Send (m x)) @ [msg]\<rparr>\<rparr>)
           else m x)"
      using mm False nc by (auto simp: set_send_apply)
    ultimately show ?thesis using step r br by simp
  qed
qed


text \<open>
  Claim C2. In every hub state that satisfies the invariant and has a message waiting in
  \<^verbatim>\<open>h.broadcast\<close>, the broadcast case of \<^verbatim>\<open>Run\<close> returns with nothing pending: it
  neither panics nor waits. A registered client whose queue is full is removed from the
  client set and its queue is closed, with its content as it was; every other registered
  client stays registered with the message appended to its open queue; clients that are
  not registered are not touched; and the invariant holds afterwards.
\<close>

theorem broadcast_drops_saturated:
  assumes "hub_inv (h, m)" and "buf (broadcast h) = message # waiting"
  shows "\<exists>h' m'. Run Broadcast (h, m) = Returns ((h', m'), Idle)
     \<and> hub_inv (h', m')
     \<and> buf (broadcast h') = waiting
     \<and> set (clients h') = {c \<in> set (clients h). \<not> full (Send (m c))}
     \<and> (\<forall>c \<in> set (clients h).
          if full (Send (m c))
          then c \<notin> set (clients h') \<and> closed (Send (m' c))
               \<and> buf (Send (m' c)) = buf (Send (m c))
          else c \<in> set (clients h') \<and> \<not> closed (Send (m' c))
               \<and> buf (Send (m' c)) = buf (Send (m c)) @ [message])
     \<and> (\<forall>c. c \<notin> set (clients h) \<longrightarrow> m' c = m c)"
proof -
  let ?h0 = "h\<lparr>broadcast := (broadcast h)\<lparr>buf := waiting\<rparr>\<rparr>"
  from assms(1) have d: "distinct (clients h)"
    and op: "\<forall>c \<in> set (clients h). \<not> closed (Send (m c))"
    and br: "\<not> closed (broadcast h)" "cap (broadcast h) = 256"
    by (auto simp: hub_inv_def)
  from broadcast_loop_spec[OF d op, of message ?h0] obtain h' m' where
    r: "broadcast_loop message (clients h) (?h0, m) = Returns (h', m')"
    and cl: "clients h' = filter (\<lambda>c. c \<notin> set (clients h) \<or> \<not> full (Send (m c))) (clients ?h0)"
    and b: "broadcast h' = broadcast ?h0"
    and mm: "\<forall>c. m' c =
          (if c \<in> set (clients h) then
             (if full (Send (m c)) then (m c)\<lparr>Send := (Send (m c))\<lparr>closed := True\<rparr>\<rparr>
              else (m c)\<lparr>Send := (Send (m c))\<lparr>buf := buf (Send (m c)) @ [message]\<rparr>\<rparr>)
           else m c)"
    by blast
  have run: "Run Broadcast (h, m) = Returns ((h', m'), Idle)"
    using assms(2) r by (simp add: idle_def)
  have inv: "hub_inv (h', m')"
    using d op br cl b mm by (auto simp: hub_inv_def)
  from run inv cl b mm op show ?thesis by auto
qed

theorem broadcast_drops_saturated_witness:
  "hub_inv
     (NewHub\<lparr>clients := [1, 2], broadcast := (make_chan 256)\<lparr>buf := [shutdownMsg 9]\<rparr>\<rparr>,
      (\<lambda>c. newClient ''a'')
        (2 := \<lparr>ClientID = ''b'', Conn = Open,
               Send = \<lparr>buf = replicate 256 (shutdownMsg 3), cap = 256, closed = False\<rparr>\<rparr>))
   \<and> (case Run Broadcast
        (NewHub\<lparr>clients := [1, 2], broadcast := (make_chan 256)\<lparr>buf := [shutdownMsg 9]\<rparr>\<rparr>,
         (\<lambda>c. newClient ''a'')
           (2 := \<lparr>ClientID = ''b'', Conn = Open,
                  Send = \<lparr>buf = replicate 256 (shutdownMsg 3), cap = 256, closed = False\<rparr>\<rparr>))
       of Returns ((h', m'), p) \<Rightarrow>
            clients h' = [1] \<and> buf (Send (m' 1)) = [shutdownMsg 9] \<and> closed (Send (m' 2))
            \<and> p = Idle
        | Blocks \<Rightarrow> False
        | Panics \<Rightarrow> False)"
proof -
  let ?h = "NewHub\<lparr>clients := [1, 2], broadcast := (make_chan 256)\<lparr>buf := [shutdownMsg 9]\<rparr>\<rparr>"
  let ?m = "(\<lambda>c. newClient ''a'')
        (2 := \<lparr>ClientID = ''b'', Conn = Open,
               Send = \<lparr>buf = replicate 256 (shutdownMsg 3), cap = 256, closed = False\<rparr>\<rparr>)"
  have inv: "hub_inv (?h, ?m)"
    by (simp add: hub_inv_def NewHub_def make_chan_def newClient_def)
  have b: "buf (broadcast ?h) = shutdownMsg 9 # []"
    by (simp add: NewHub_def make_chan_def)
  from broadcast_drops_saturated[OF inv b] inv show ?thesis
    by (simp add: NewHub_def make_chan_def newClient_def try_send_def close_def
        map_delete_def set_send_def idle_def)
qed

lemma SendToClient_cases:
  assumes "SendToClient c msg (h, m) = Returns ((h', m'), p)"
  shows "\<not> closed (Send (m c)) \<and> h' = h
     \<and> (if full (Send (m c))
         then p = Drop c \<and> m' = set_send c ((Send (m c))\<lparr>closed := True\<rparr>) m
         else p = Idle \<and> m' = set_send c ((Send (m c))\<lparr>buf := buf (Send (m c)) @ [msg]\<rparr>) m)"
  using assms
  by (auto simp: SendToClient_def try_send_def close_def full_def split: if_splits)

lemma hub_inv_flawed: "hub_inv st \<Longrightarrow> flawed_inv c st"
  by (simp add: hub_inv_def flawed_inv_def)

lemma loop_inv_Run:
  assumes "hub_inv (h, m)" and "Run e (h, m) = Returns ls"
  shows "loop_inv ls"
proof (cases e)
  case (Register c now)
  with assms show ?thesis
    by (auto simp: hub_inv_def flawed_inv_def map_insert_def)
next
  case (Unregister c)
  with assms show ?thesis by (auto split: if_splits)
next
  case Broadcast
  from assms(2) Broadcast obtain message waiting where b: "buf (broadcast h) = message # waiting"
    by (cases "buf (broadcast h)") auto
  let ?h0 = "h\<lparr>broadcast := (broadcast h)\<lparr>buf := waiting\<rparr>\<rparr>"
  from assms(1) have d: "distinct (clients h)"
    and op: "\<forall>c \<in> set (clients h). \<not> closed (Send (m c))"
    by (auto simp: hub_inv_def)
  from broadcast_loop_spec[OF d op, of message ?h0] assms b Broadcast show ?thesis
    by (auto simp: hub_inv_def idle_def)
next
  case (Tick t1 t2)
  with assms show ?thesis
    by (auto simp: hub_inv_def BroadcastMessage_def send_def idle_def split: if_splits)
qed

lemma loop_inv_resume:
  assumes "loop_inv ((h, m), p)" and "resume p (h, m) = Returns ls"
  shows "loop_inv ls"
proof (cases p)
  case Idle
  with assms show ?thesis by auto
next
  case (Greet c now)
  obtain h' m' p' where ls: "ls = ((h', m'), p')" by (cases ls) auto
  from assms(2) Greet ls
  have "SendToClient c (welcomeMsg (ClientID (m c)) now) (h, m) = Returns ((h', m'), p')"
    by simp
  note r = SendToClient_cases[OF this]
  from assms(1) Greet have f: "flawed_inv c (h, m)" by simp
  show ?thesis
  proof (cases "full (Send (m c))")
    case True
    with r f ls show ?thesis by (auto simp: flawed_inv_def set_send_apply)
  next
    case False
    with r f ls show ?thesis by (auto simp: flawed_inv_def hub_inv_def set_send_apply)
  qed
next
  case (Drop c)
  with assms show ?thesis
    by (auto simp: flawed_inv_def hub_inv_def clients_map_delete broadcast_map_delete
        distinct_removeAll)
next
  case (Leave c)
  with assms show ?thesis
    by (auto simp: hub_inv_def close_def clients_map_delete broadcast_map_delete
        set_send_apply distinct_removeAll split: if_splits)
qed

lemma loop_inv_keep_broadcast:
  assumes "loop_inv ((h, m), p)" and "BroadcastMessage msg (h, m) = Returns st'"
  shows "loop_inv (st', p)"
  using assms
  by (cases p)
     (auto simp: hub_inv_def flawed_inv_def BroadcastMessage_def send_def split: if_splits)

lemma loop_inv_keep_shutdown:
  assumes "loop_inv ((h, m), p)" and "Shutdown now (h, m) = Returns st'"
  shows "loop_inv (st', p)"
  using assms
  by (cases p)
     (auto simp: hub_inv_def flawed_inv_def Shutdown_def split: outcome.splits)

lemma loop_inv_act:
  assumes "loop_inv ls" and "act a ls = Returns ls'"
  shows "loop_inv ls'"
proof -
  obtain h m p where ls: "ls = ((h, m), p)" by (cases ls) auto
  show ?thesis
  proof (cases a)
    case (Loop e)
    with assms ls have "p = Idle" and "Run e (h, m) = Returns ls'"
      by (auto split: if_splits)
    with assms(1) ls show ?thesis by (auto intro: loop_inv_Run)
  next
    case Next
    with assms ls show ?thesis by (auto intro: loop_inv_resume)
  next
    case (Publish msg)
    with assms ls show ?thesis
      by (auto simp: keep_def split: outcome.splits intro: loop_inv_keep_broadcast)
  next
    case (Stop now)
    with assms ls show ?thesis
      by (auto simp: keep_def split: outcome.splits intro: loop_inv_keep_shutdown)
  qed
qed

lemma loop_inv_acts: "loop_inv ls \<Longrightarrow> acts as ls = Returns ls' \<Longrightarrow> loop_inv ls'"
proof (induction as arbitrary: ls)
  case Nil
  then show ?case by simp
next
  case (Cons a as)
  from Cons.prems(2) obtain ls1 where a: "act a ls = Returns ls1"
    and rest: "acts as ls1 = Returns ls'"
    by (auto split: outcome.splits)
  from Cons.IH[OF loop_inv_act[OF Cons.prems(1) a] rest] show ?case .
qed

lemma hub_inv_NewHub: "hub_inv (NewHub, m)"
  by (simp add: hub_inv_def NewHub_def make_chan_def)

text \<open>
  Every state in which the hub, started by \<^verbatim>\<open>NewHub\<close>, is at the top of its loop
  satisfies the invariant.
\<close>

lemma hub_inv_reachable: "acts as ((NewHub, m), Idle) = Returns (st', Idle) \<Longrightarrow> hub_inv st'"
  using loop_inv_acts[of "((NewHub, m), Idle)" as "(st', Idle)"] hub_inv_NewHub by simp

lemma broadcast_loop_grows:
  "broadcast_loop msg cs (h, m) = Returns (h', m')
   \<Longrightarrow> \<exists>later. buf (Send (m' c)) = buf (Send (m c)) @ later"
proof (induction cs arbitrary: h m)
  case Nil
  then show ?case by simp
next
  case (Cons x cs)
  from Cons.prems obtain h1 ch where
    rest: "broadcast_loop msg cs (h1, set_send x ch m) = Returns (h', m')"
    and ch: "ch = (Send (m x))\<lparr>closed := True\<rparr> \<or> ch = (Send (m x))\<lparr>buf := buf (Send (m x)) @ [msg]\<rparr>"
    by (auto simp: try_send_def close_def split: if_splits)
  from Cons.IH[OF rest] obtain later where
    "buf (Send (m' c)) = buf (Send (set_send x ch m c)) @ later" by blast
  with ch show ?case by (auto simp: set_send_apply)
qed

lemma shutdown_loop_grows:
  "shutdown_loop msg cs m = Returns m'
   \<Longrightarrow> \<exists>later. buf (Send (m' c)) = buf (Send (m c)) @ later"
proof (induction cs arbitrary: m)
  case Nil
  then show ?case by simp
next
  case (Cons x cs)
  let ?m1 = "m(x := (m x)\<lparr>Send := (Send (m x))\<lparr>buf := buf (Send (m x)) @ [msg], closed := True\<rparr>,
                          Conn := Closed\<rparr>)"
  from Cons.prems have rest: "shutdown_loop msg cs ?m1 = Returns m'"
    by (auto simp: send_def close_def split: if_splits)
  from Cons.IH[OF rest] obtain later where
    "buf (Send (m' c)) = buf (Send (?m1 c)) @ later" by blast
  then show ?case by auto
qed

lemma act_grows:
  assumes "act a ((h, m), p) = Returns ((h', m'), p')"
  shows "\<exists>later. buf (Send (m' c)) = buf (Send (m c)) @ later"
proof (cases a)
  case (Loop e)
  with assms have r: "Run e (h, m) = Returns ((h', m'), p')" by (auto split: if_splits)
  show ?thesis
  proof (cases e)
    case (Register x now)
    with r show ?thesis by auto
  next
    case (Unregister x)
    with r show ?thesis by (auto split: if_splits)
  next
    case Broadcast
    with r show ?thesis
      by (cases "buf (broadcast h)")
         (auto simp: idle_def split: outcome.splits dest: broadcast_loop_grows)
  next
    case (Tick t1 t2)
    with r show ?thesis
      by (auto simp: idle_def BroadcastMessage_def send_def split: if_splits)
  qed
next
  case Next
  with assms have r: "resume p (h, m) = Returns ((h', m'), p')" by simp
  show ?thesis
  proof (cases p)
    case Idle
    with r show ?thesis by auto
  next
    case (Greet x now)
    with r have "SendToClient x (welcomeMsg (ClientID (m x)) now) (h, m) = Returns ((h', m'), p')"
      by simp
    from SendToClient_cases[OF this] show ?thesis
      by (cases "full (Send (m x))") (auto simp: set_send_apply)
  next
    case (Drop x)
    with r show ?thesis by auto
  next
    case (Leave x)
    with r show ?thesis by (auto simp: close_def set_send_apply split: if_splits)
  qed
next
  case (Publish msg)
  with assms show ?thesis
    by (auto simp: keep_def BroadcastMessage_def send_def split: if_splits)
next
  case (Stop now)
  with assms show ?thesis
    by (auto simp: keep_def Shutdown_def split: outcome.splits dest: shutdown_loop_grows)
qed

lemma acts_grows:
  "acts as ((h, m), p) = Returns ((h', m'), p')
   \<Longrightarrow> \<exists>later. buf (Send (m' c)) = buf (Send (m c)) @ later"
proof (induction as arbitrary: h m p)
  case Nil
  then show ?case by simp
next
  case (Cons a as)
  from Cons.prems obtain h1 m1 p1 where a: "act a ((h, m), p) = Returns ((h1, m1), p1)"
    and rest: "acts as ((h1, m1), p1) = Returns ((h', m'), p')"
    by (auto split: outcome.splits)
  from act_grows[OF a, of c] Cons.IH[OF rest] show ?case by auto
qed

lemma acts_append:
  "acts (as @ bs) ls =
     (case acts as ls of Returns ls' \<Rightarrow> acts bs ls' | Blocks \<Rightarrow> Blocks | Panics \<Rightarrow> Panics)"
  by (induction as arbitrary: ls) (auto split: outcome.splits)

lemma Run_Broadcast_delivers:
  assumes "hub_inv (h, m)" and "buf (broadcast h) = message # waiting"
  shows "\<exists>h' m'. Run Broadcast (h, m) = Returns ((h', m'), Idle)
     \<and> hub_inv (h', m') \<and> buf (broadcast h') = waiting
     \<and> (\<forall>c \<in> set (clients h). \<not> full (Send (m c)) \<longrightarrow>
           c \<in> set (clients h') \<and> buf (Send (m' c)) = buf (Send (m c)) @ [message]
           \<and> cap (Send (m' c)) = cap (Send (m c)))"
proof -
  let ?h0 = "h\<lparr>broadcast := (broadcast h)\<lparr>buf := waiting\<rparr>\<rparr>"
  from assms(1) have d: "distinct (clients h)"
    and op: "\<forall>c \<in> set (clients h). \<not> closed (Send (m c))"
    and br: "\<not> closed (broadcast h)" "cap (broadcast h) = 256"
    by (auto simp: hub_inv_def)
  from broadcast_loop_spec[OF d op, of message ?h0] obtain h' m' where
    r: "broadcast_loop message (clients h) (?h0, m) = Returns (h', m')"
    and cl: "clients h' = filter (\<lambda>c. c \<notin> set (clients h) \<or> \<not> full (Send (m c))) (clients ?h0)"
    and b: "broadcast h' = broadcast ?h0"
    and mm: "\<forall>c. m' c =
          (if c \<in> set (clients h) then
             (if full (Send (m c)) then (m c)\<lparr>Send := (Send (m c))\<lparr>closed := True\<rparr>\<rparr>
              else (m c)\<lparr>Send := (Send (m c))\<lparr>buf := buf (Send (m c)) @ [message]\<rparr>\<rparr>)
           else m c)"
    by blast
  have run: "Run Broadcast (h, m) = Returns ((h', m'), Idle)"
    using assms(2) r by (simp add: idle_def)
  have inv: "hub_inv (h', m')"
    using d op br cl b mm by (auto simp: hub_inv_def)
  from run inv cl b mm show ?thesis by auto
qed

lemma broadcasts_delivered:
  assumes "hub_inv (h, m)" and "c \<in> set (clients h)"
    and "buf (broadcast h) = waiting"
    and "length (buf (Send (m c))) + length waiting \<le> cap (Send (m c))"
  shows "\<exists>h' m'. acts (replicate (length waiting) (Loop Broadcast)) ((h, m), Idle)
                   = Returns ((h', m'), Idle)
     \<and> hub_inv (h', m') \<and> buf (broadcast h') = [] \<and> c \<in> set (clients h')
     \<and> buf (Send (m' c)) = buf (Send (m c)) @ waiting"
  using assms
proof (induction waiting arbitrary: h m)
  case Nil
  then show ?case by simp
next
  case (Cons message waiting)
  from Cons.prems(4) have nf: "\<not> full (Send (m c))" by (simp add: full_def)
  from Run_Broadcast_delivers[OF Cons.prems(1,3)] Cons.prems(2) nf obtain h1 m1 where
    r: "Run Broadcast (h, m) = Returns ((h1, m1), Idle)"
    and inv: "hub_inv (h1, m1)" and b: "buf (broadcast h1) = waiting"
    and c1: "c \<in> set (clients h1)" "buf (Send (m1 c)) = buf (Send (m c)) @ [message]"
       "cap (Send (m1 c)) = cap (Send (m c))"
    by blast
  from Cons.prems(4) c1
  have room: "length (buf (Send (m1 c))) + length waiting \<le> cap (Send (m1 c))" by simp
  from Cons.IH[OF inv c1(1) b room] obtain h' m' where
    "acts (replicate (length waiting) (Loop Broadcast)) ((h1, m1), Idle) = Returns ((h', m'), Idle)"
    "hub_inv (h', m')" "buf (broadcast h') = []" "c \<in> set (clients h')"
    "buf (Send (m' c)) = buf (Send (m1 c)) @ waiting"
    by blast
  with r c1 show ?case by simp
qed

text \<open>
  A registration that \<^verbatim>\<open>Shutdown\<close> does not interrupt. When the loop services the
  registration of a client that \<^verbatim>\<open>handleWebSocket\<close> has just built and goes on to
  \<^verbatim>\<open>SendToClient\<close>, the client is registered and its queue holds exactly the welcome
  message; this needs no assumption on the messages that wait in \<^verbatim>\<open>h.broadcast\<close>.
  Whatever happens to the hub afterwards, the queue starts with the welcome message.
\<close>

lemma welcome_first:
  assumes "hub_inv (h, m)" and "m c = newClient cid"
  shows "\<exists>h1 m1. acts [Loop (Register c now), Next] ((h, m), Idle) = Returns ((h1, m1), Idle)
     \<and> hub_inv (h1, m1) \<and> broadcast h1 = broadcast h
     \<and> c \<in> set (clients h1) \<and> buf (Send (m1 c)) = [welcomeMsg cid now]
     \<and> cap (Send (m1 c)) = 256
     \<and> (\<forall>as h' m' p'. acts as ((h1, m1), Idle) = Returns ((h', m'), p')
           \<longrightarrow> (\<exists>later. buf (Send (m' c)) = welcomeMsg cid now # later))"
proof -
  let ?h1 = "map_insert c h"
  let ?m1 = "set_send c ((Send (m c))\<lparr>buf := [welcomeMsg cid now]\<rparr>) m"
  have reg: "acts [Loop (Register c now), Next] ((h, m), Idle) = Returns ((?h1, ?m1), Idle)"
    using assms(2)
    by (simp add: SendToClient_def try_send_def newClient_def make_chan_def)
  have "loop_inv ((h, m), Idle)" using assms(1) by simp
  from loop_inv_acts[OF this reg] have inv1: "hub_inv (?h1, ?m1)" by simp
  have b1: "broadcast ?h1 = broadcast h" by (simp add: map_insert_def)
  have in1: "c \<in> set (clients ?h1)" by (simp add: map_insert_def)
  have buf1: "buf (Send (?m1 c)) = [welcomeMsg cid now]" by (simp add: set_send_apply)
  have cap1: "cap (Send (?m1 c)) = 256"
    using assms(2) by (simp add: set_send_apply newClient_def make_chan_def)
  have later: "\<exists>later. buf (Send (m' c)) = welcomeMsg cid now # later"
    if "acts as ((?h1, ?m1), Idle) = Returns ((h', m'), p')" for as h' m' p'
    using acts_grows[OF that, of c] buf1 by auto
  from reg inv1 b1 in1 buf1 cap1 later show ?thesis by blast
qed

text \<open>
  When message \<open>X\<close> is published after such a registration and the loop services the
  messages that were waiting and then \<open>X\<close>, the queue holds the welcome message, the
  messages that were waiting, and \<open>X\<close>, in this order, as long as the queue has room for
  them; with nothing waiting it holds the welcome message and \<open>X\<close>.
\<close>

lemma welcome_then_broadcasts:
  assumes "hub_inv (h, m)" and "m c = newClient cid"
    and "length (buf (broadcast h)) + 2 \<le> 256"
  shows "\<exists>h3 m3.
     acts ([Loop (Register c now), Next, Publish X]
           @ replicate (length (buf (broadcast h)) + 1) (Loop Broadcast)) ((h, m), Idle)
       = Returns ((h3, m3), Idle)
     \<and> c \<in> set (clients h3)
     \<and> buf (Send (m3 c)) = welcomeMsg cid now # buf (broadcast h) @ [X]"
proof -
  from welcome_first[OF assms(1,2), of now] obtain h1 m1 where
    reg: "acts [Loop (Register c now), Next] ((h, m), Idle) = Returns ((h1, m1), Idle)"
    and inv1: "hub_inv (h1, m1)" and b1: "broadcast h1 = broadcast h"
    and in1: "c \<in> set (clients h1)" and buf1: "buf (Send (m1 c)) = [welcomeMsg cid now]"
    and cap1: "cap (Send (m1 c)) = 256"
    by blast
  let ?h2 = "h1\<lparr>broadcast := (broadcast h1)\<lparr>buf := buf (broadcast h) @ [X]\<rparr>\<rparr>"
  from inv1 assms(3) b1 have pub: "BroadcastMessage X (h1, m1) = Returns (?h2, m1)"
    by (simp add: BroadcastMessage_def send_def hub_inv_def)
  from inv1 have inv2: "hub_inv (?h2, m1)" by (simp add: hub_inv_def)
  have w2: "buf (broadcast ?h2) = buf (broadcast h) @ [X]" by simp
  have in2: "c \<in> set (clients ?h2)" using in1 by simp
  have room: "length (buf (Send (m1 c))) + length (buf (broadcast h) @ [X]) \<le> cap (Send (m1 c))"
    using buf1 cap1 assms(3) by simp
  from broadcasts_delivered[OF inv2 in2 w2 room] obtain h3 m3 where
    r: "acts (replicate (length (buf (broadcast h) @ [X])) (Loop Broadcast)) ((?h2, m1), Idle)
          = Returns ((h3, m3), Idle)"
    and in3: "c \<in> set (clients h3)"
    and buf3: "buf (Send (m3 c)) = buf (Send (m1 c)) @ buf (broadcast h) @ [X]"
    by blast
  have "acts ([Loop (Register c now), Next, Publish X]
           @ replicate (length (buf (broadcast h)) + 1) (Loop Broadcast)) ((h, m), Idle)
       = Returns ((h3, m3), Idle)"
  proof -
    have a1: "acts [Publish X] ((h1, m1), Idle) = Returns ((?h2, m1), Idle)"
      using pub by (simp add: keep_def)
    have eq: "[Loop (Register c now), Next, Publish X]
           @ replicate (length (buf (broadcast h)) + 1) (Loop Broadcast)
        = ([Loop (Register c now), Next] @ [Publish X])
           @ replicate (length (buf (broadcast h) @ [X])) (Loop Broadcast)"
      by simp
    show ?thesis
      by (subst eq) (simp only: acts_append reg a1 r outcome.case)
  qed
  with in3 buf3 buf1 show ?thesis by auto
qed

text \<open>
  Claim C3 is not met by the code when \<^verbatim>\<open>Shutdown\<close> runs between the two sections of the
  register case. The loop inserts the client and releases \<^verbatim>\<open>h.mu\<close>; \<^verbatim>\<open>Shutdown\<close> takes
  the lock, finds the client in the set, puts the shutdown message into its empty queue,
  closes the queue and the connection and empties the set; the loop then calls
  \<^verbatim>\<open>SendToClient\<close> with the welcome message, and the send on the closed queue panics. The
  first message in the queue of this client is the shutdown message, the welcome message
  never gets there, and the loop of the hub ends with the panic.
\<close>

theorem welcome_after_shutdown_panics:
  "acts [Loop (Register 1 5), Stop 7] ((NewHub, \<lambda>c. newClient ''client_1''), Idle)
     = Returns ((NewHub,
          (\<lambda>c. newClient ''client_1'')
            (1 := \<lparr>ClientID = ''client_1'', Conn = Closed,
                   Send = \<lparr>buf = [shutdownMsg 7], cap = 256, closed = True\<rparr>\<rparr>)),
        Greet 1 5)
   \<and> acts [Loop (Register 1 5), Stop 7, Next] ((NewHub, \<lambda>c. newClient ''client_1''), Idle)
     = Panics"
  by (simp add: NewHub_def make_chan_def newClient_def map_insert_def keep_def Shutdown_def
      send_def close_def SendToClient_def try_send_def)

text \<open>
  The unregister case has the same window between its membership test and its lock:
  after \<^verbatim>\<open>Shutdown\<close> has closed the queue in between, the loop closes it a second time.
\<close>

lemma unregister_after_shutdown_panics:
  "acts [Loop (Register 1 5), Next, Loop (Unregister 1), Stop 7, Next]
     ((NewHub, \<lambda>c. newClient ''client_1''), Idle) = Panics"
  by (simp add: NewHub_def make_chan_def newClient_def map_insert_def keep_def Shutdown_def
      send_def close_def SendToClient_def try_send_def set_send_def)

lemma publish_many:
  assumes "\<not> closed (broadcast h)" and "length (buf (broadcast h)) + n \<le> cap (broadcast h)"
  shows "acts (replicate n (Publish msg)) ((h, m), p)
     = Returns ((h\<lparr>broadcast := (broadcast h)\<lparr>buf := buf (broadcast h) @ replicate n msg\<rparr>\<rparr>, m), p)"
  using assms
proof (induction n arbitrary: h)
  case 0
  then show ?case by simp
next
  case (Suc n)
  let ?h1 = "h\<lparr>broadcast := (broadcast h)\<lparr>buf := buf (broadcast h) @ [msg]\<rparr>\<rparr>"
  from Suc.prems have step: "act (Publish msg) ((h, m), p) = Returns ((?h1, m), p)"
    by (simp add: keep_def BroadcastMessage_def send_def)
  from Suc.prems have "\<not> closed (broadcast ?h1)"
    and "length (buf (broadcast ?h1)) + n \<le> cap (broadcast ?h1)" by auto
  from Suc.IH[OF this] step show ?case
    by (simp add: replicate_app_Cons_same)
qed

text \<open>
  The hub state of the counterexample of claim C1 is reached from \<^verbatim>\<open>NewHub\<close> by 256
  publications that the loop has not serviced, and it satisfies the invariant.
\<close>

lemma full_broadcast_reachable:
  "acts (replicate 256 (Publish msg)) ((NewHub, m), Idle)
     = Returns ((NewHub\<lparr>broadcast := (make_chan 256)\<lparr>buf := replicate 256 msg\<rparr>\<rparr>, m), Idle)"
  using publish_many[of NewHub 256 msg m Idle]
  by (simp add: NewHub_def make_chan_def)

subsection \<open>Shutdown\<close>

lemma shutdown_loop_spec:
  assumes "distinct cs"
    and "\<forall>c \<in> set cs. \<not> closed (Send (m c)) \<and> \<not> full (Send (m c))"
  shows "shutdown_loop msg cs m =
     Returns (\<lambda>c. if c \<in> set cs
                  then (m c)\<lparr>Send := (Send (m c))\<lparr>buf := buf (Send (m c)) @ [msg],
                                                  closed := True\<rparr>,
                             Conn := Closed\<rparr>
                  else m c)"
  using assms
proof (induction cs arbitrary: m)
  case Nil
  then show ?case by simp
next
  case (Cons x cs)
  let ?m1 = "m(x := (m x)\<lparr>Send := (Send (m x))\<lparr>buf := buf (Send (m x)) @ [msg], closed := True\<rparr>,
                          Conn := Closed\<rparr>)"
  from Cons.prems have step: "shutdown_loop msg (x # cs) m = shutdown_loop msg cs ?m1"
    by (simp add: send_def close_def full_def)
  from Cons.prems have nx: "x \<notin> set cs" and d: "distinct cs"
    and r: "\<forall>c \<in> set cs. \<not> closed (Send (?m1 c)) \<and> \<not> full (Send (?m1 c))"
    by auto
  have same: "(\<lambda>c. if c \<in> set cs
                  then (?m1 c)\<lparr>Send := (Send (?m1 c))\<lparr>buf := buf (Send (?m1 c)) @ [msg],
                                                  closed := True\<rparr>,
                             Conn := Closed\<rparr>
                  else ?m1 c)
     = (\<lambda>c. if c \<in> set (x # cs)
                  then (m c)\<lparr>Send := (Send (m c))\<lparr>buf := buf (Send (m c)) @ [msg],
                                                  closed := True\<rparr>,
                             Conn := Closed\<rparr>
                  else m c)"
    using nx by (intro ext) auto
  show ?case
    unfolding step Cons.IH[OF d r] same ..
qed

text \<open>
  When no registered client has a full queue, \<^verbatim>\<open>Shutdown\<close> returns with an empty client
  set; every client that was registered has the shutdown message appended to its queue,
  its queue closed and its connection closed, and no other client is touched.
\<close>

text \<open>
  When no registered client has a full queue, \<^verbatim>\<open>Shutdown\<close> returns with an empty client
  set; every client that was registered has the shutdown message appended to its queue,
  its queue closed and its connection closed, and no other client is touched.
\<close>

lemma Shutdown_with_room:
  assumes "hub_inv (h, m)" and "\<forall>c \<in> set (clients h). \<not> full (Send (m c))"
  shows "Shutdown now (h, m) =
     Returns (h\<lparr>clients := []\<rparr>,
       \<lambda>c. if c \<in> set (clients h)
            then (m c)\<lparr>Send := (Send (m c))\<lparr>buf := buf (Send (m c)) @ [shutdownMsg now],
                                            closed := True\<rparr>,
                       Conn := Closed\<rparr>
            else m c)"
proof -
  from assms have "distinct (clients h)"
    and "\<forall>c \<in> set (clients h). \<not> closed (Send (m c)) \<and> \<not> full (Send (m c))"
    by (auto simp: hub_inv_def)
  from shutdown_loop_spec[OF this] show ?thesis by (simp add: Shutdown_def)
qed


text \<open>
  Claim C6 is not met by the code for a registered client whose queue is full:
  \<^verbatim>\<open>Shutdown\<close> sends with a plain \<^verbatim>\<open>client.Send <- shutdownMsg\<close>, which waits for room,
  where the loop of \<^verbatim>\<open>Run\<close> and \<^verbatim>\<open>SendToClient\<close> use \<^verbatim>\<open>select\<close> with a default
  branch. Unless the client's write pump takes a message, the shutdown message is not
  enqueued, nothing is closed and \<^verbatim>\<open>Shutdown\<close> does not return.
\<close>

theorem Shutdown_blocks_on_full_queue:
  "Shutdown 7
     (NewHub\<lparr>clients := [1]\<rparr>,
      (\<lambda>c. newClient ''a'')
        (1 := \<lparr>ClientID = ''b'', Conn = Open,
               Send = \<lparr>buf = replicate 256 (heartbeat 1 ''2025-10-21T19:32:00Z'' 3), cap = 256,
                       closed = False\<rparr>\<rparr>))
     = Blocks"
  by (simp add: NewHub_def Shutdown_def send_def)

text \<open>The state above satisfies the invariant of the hub.\<close>

lemma full_queue_state_inv:
  "hub_inv
     (NewHub\<lparr>clients := [1]\<rparr>,
      (\<lambda>c. newClient ''a'')
        (1 := \<lparr>ClientID = ''b'', Conn = Open,
               Send = \<lparr>buf = replicate 256 (heartbeat 1 ''2025-10-21T19:32:00Z'' 3), cap = 256,
                       closed = False\<rparr>\<rparr>))"
  by (simp add: hub_inv_def NewHub_def make_chan_def)

end
